theory Spec2Isabelle
  imports Main "HOL-Library.Log_Nat" "HOL-Library.Multiset"
begin

section \<open>Python values and exceptions\<close>

text \<open>
  The exceptions the engine of \<^verbatim>\<open>fizzbuzz_core.py\<close> can raise. Every function that can
  raise returns \<open>py_error + 'a\<close>, with \<open>Inl\<close> for the exception.
\<close>

datatype py_error =
    KeyError string
  | TypeError
  | ZeroDivisionError
  | OverflowError
  | ValueError string

text \<open>
  A rule's \<^verbatim>\<open>properties\<close> is a \<^verbatim>\<open>Dict[str, Any]\<close>. The values the engine reads from it are
  integers and strings; these are the two kinds of value of the model.
\<close>

datatype py_value = PyInt int | PyStr string

section \<open>IEEE 754 binary64 arithmetic\<close>

text \<open>
  Python's \<^verbatim>\<open>float\<close> is an IEEE 754 double. The engine uses floats in two places:
  \<^verbatim>\<open>int(math.sqrt(n))\<close> in the primality test and \<^verbatim>\<open>(i + 1) / total_numbers * 100\<close> in the
  progress report. A finite double is a rational number, so the model computes with \<open>rat\<close>
  and rounds every operation to the nearest double, ties to even, as the hardware does:
  53 significant bits, the smallest positive double \<open>2\<^sup>-\<^sup>1\<^sup>0\<^sup>7\<^sup>4\<close>, overflow at \<open>2\<^sup>1\<^sup>0\<^sup>2\<^sup>4\<close>.
\<close>

type_synonym pyfloat = rat

definition pow2 :: "int \<Rightarrow> rat" where
  "pow2 k = (if 0 \<le> k then 2 ^ nat k else 1 / 2 ^ nat (- k))"

text \<open>\<open>floor_log2 x\<close> is the exponent \<open>e\<close> with \<open>2\<^sup>e \<le> x < 2\<^sup>e\<^sup>+\<^sup>1\<close>, for \<open>x > 0\<close>.\<close>

definition floor_log2 :: "rat \<Rightarrow> int" where
  "floor_log2 x =
     (let (a, b) = quotient_of x; d = bitlen a - bitlen b
      in if pow2 d \<le> x then d else d - 1)"

definition round_half_even :: "rat \<Rightarrow> int" where
  "round_half_even x =
     (let q = \<lfloor>x\<rfloor>; r = x - of_int q
      in if r < 1 / 2 then q else if 1 / 2 < r then q + 1 else if even q then q else q + 1)"

text \<open>Rounding a positive rational to the nearest double (subnormals included).\<close>

definition round_double_pos :: "rat \<Rightarrow> pyfloat" where
  "round_double_pos x =
     (let p = max (floor_log2 x - 52) (- 1074)
      in of_int (round_half_even (x / pow2 p)) * pow2 p)"

definition round_double :: "rat \<Rightarrow> pyfloat" where
  "round_double x =
     (if x = 0 then 0 else if x < 0 then - round_double_pos (- x) else round_double_pos x)"

text \<open>
  \<^verbatim>\<open>float(n)\<close> for an integer, as \<^verbatim>\<open>math.sqrt\<close> converts its argument: correctly rounded,
  \<^verbatim>\<open>OverflowError\<close> (``int too large to convert to float'') when the rounded value does
  not fit.
\<close>

definition float_of_int :: "int \<Rightarrow> py_error + pyfloat" where
  "float_of_int n =
     (let x = round_double (of_int n)
      in if pow2 1024 \<le> \<bar>x\<bar> then Inl OverflowError else Inr x)"

text \<open>The integer square root, used to compute the correctly rounded \<^verbatim>\<open>sqrt\<close>.\<close>

function isqrt :: "int \<Rightarrow> int" where
  "isqrt n =
     (if n < 1 then 0
      else let r = 2 * isqrt (n div 4) in if (r + 1) * (r + 1) \<le> n then r + 1 else r)"
  by pat_completeness auto
termination
  by (relation "measure nat") auto

declare isqrt.simps [simp del]

text \<open>
  The correctly rounded square root of a positive double \<open>x\<close>: with \<open>p\<close> the exponent of
  the result's last bit, \<open>m = \<lfloor>sqrt (x / 4\<^sup>p)\<rfloor>\<close> has 53 bits, and the result is \<open>m\<close> or
  \<open>m + 1\<close> (times \<open>2\<^sup>p\<close>), whichever is nearer; a tie cannot occur.
\<close>

definition sqrt_double :: "pyfloat \<Rightarrow> pyfloat" where
  "sqrt_double x =
     (if x \<le> 0 then 0
      else let p = floor_log2 x div 2 - 52;
               y = x / pow2 (2 * p);
               m = isqrt \<lfloor>y\<rfloor>
           in (if of_int (m * m + m) + 1 / 4 < y then of_int (m + 1) else of_int m) * pow2 p)"

definition math_sqrt :: "int \<Rightarrow> py_error + pyfloat" where
  "math_sqrt n =
     (case float_of_int n of
        Inl e \<Rightarrow> Inl e
      | Inr x \<Rightarrow> if x < 0 then Inl (ValueError ''math domain error'') else Inr (sqrt_double x))"

text \<open>\<^verbatim>\<open>int(x)\<close> of a finite float truncates towards zero.\<close>

definition int_of_float :: "pyfloat \<Rightarrow> int" where
  "int_of_float x = (if 0 \<le> x then \<lfloor>x\<rfloor> else \<lceil>x\<rceil>)"

section \<open>The primality test\<close>

text \<open>
  \<^verbatim>\<open>for i in range(3, stop, 2): if n % i == 0: return False\<close>, then \<^verbatim>\<open>return True\<close>.
\<close>

function is_prime_loop :: "int \<Rightarrow> int \<Rightarrow> int \<Rightarrow> bool" where
  "is_prime_loop n i stop =
     (if i < stop then (if n mod i = 0 then False else is_prime_loop n (i + 2) stop) else True)"
  by pat_completeness auto
termination
  by (relation "measure (\<lambda>(n, i, stop). nat (stop - i))") auto

declare is_prime_loop.simps [simp del]

definition is_prime :: "int \<Rightarrow> py_error + bool" where
  "is_prime n =
     (if n < 2 then Inr False
      else if n = 2 then Inr True
      else if n mod 2 = 0 then Inr False
      else case math_sqrt n of
             Inl e \<Rightarrow> Inl e
           | Inr y \<Rightarrow> Inr (is_prime_loop n 3 (int_of_float y + 1)))"

section \<open>The Fibonacci membership set\<close>

text \<open>
  \<^verbatim>\<open>while b <= max_value: fibonacci_set.add(b); a, b = b, a + b\<close>. From an arbitrary
  state the loop need not stop (\<open>a = b = 0\<close>), so not returning is the value \<open>None\<close>.
\<close>

partial_function (option) fibonacci_loop :: "int \<Rightarrow> int \<Rightarrow> int \<Rightarrow> int set \<Rightarrow> int set option" where
  "fibonacci_loop max_value a b fibonacci_set =
     (if b \<le> max_value then fibonacci_loop max_value b (a + b) (insert b fibonacci_set)
      else Some fibonacci_set)"

definition generate_fibonacci_set :: "int \<Rightarrow> int set option" where
  "generate_fibonacci_set max_value =
     (if max_value < 1 then Some {} else fibonacci_loop max_value 1 1 {1})"

section \<open>Rules and results\<close>

datatype BlockType = DIVISOR | PRIME | FIBONACCI | RANGE

record RuleBlock =
  id' :: string
  block_type :: BlockType
  name :: string
  properties :: "string \<rightharpoonup> py_value"
  order :: int

record FizzBuzzResult =
  number :: int
  "text" :: string
  result_type :: string
  matching_blocks :: "RuleBlock list"

subsection \<open>Dictionary access and operators\<close>

text \<open>\<^verbatim>\<open>d[k]\<close> raises \<^verbatim>\<open>KeyError\<close> on a missing key; \<^verbatim>\<open>d.get(k, default)\<close> does not.\<close>

definition getitem :: "(string \<rightharpoonup> py_value) \<Rightarrow> string \<Rightarrow> py_error + py_value" where
  "getitem d k = (case d k of None \<Rightarrow> Inl (KeyError k) | Some v \<Rightarrow> Inr v)"

definition dict_get :: "(string \<rightharpoonup> py_value) \<Rightarrow> string \<Rightarrow> py_value \<Rightarrow> py_value" where
  "dict_get d k dflt = (case d k of None \<Rightarrow> dflt | Some v \<Rightarrow> v)"

text \<open>\<^verbatim>\<open>number % v\<close>, \<^verbatim>\<open>v <= number\<close> and \<^verbatim>\<open>number <= v\<close> for an integer \<^verbatim>\<open>number\<close>.\<close>

definition py_mod :: "int \<Rightarrow> py_value \<Rightarrow> py_error + int" where
  "py_mod n v =
     (case v of
        PyInt d \<Rightarrow> if d = 0 then Inl ZeroDivisionError else Inr (n mod d)
      | PyStr s \<Rightarrow> Inl TypeError)"

definition py_value_le_int :: "py_value \<Rightarrow> int \<Rightarrow> py_error + bool" where
  "py_value_le_int v n = (case v of PyInt a \<Rightarrow> Inr (a \<le> n) | PyStr s \<Rightarrow> Inl TypeError)"

definition py_int_le_value :: "int \<Rightarrow> py_value \<Rightarrow> py_error + bool" where
  "py_int_le_value n v = (case v of PyInt b \<Rightarrow> Inr (n \<le> b) | PyStr s \<Rightarrow> Inl TypeError)"

text \<open>\<^verbatim>\<open>''.join(parts)\<close> raises \<^verbatim>\<open>TypeError\<close> on an item that is not a string.\<close>

fun py_join :: "py_value list \<Rightarrow> py_error + string" where
  "py_join [] = Inr []"
| "py_join (PyStr s # vs) = (case py_join vs of Inl e \<Rightarrow> Inl e | Inr t \<Rightarrow> Inr (s @ t))"
| "py_join (PyInt i # vs) = Inl TypeError"

text \<open>\<^verbatim>\<open>str(n)\<close>: the decimal digits, after a minus sign when \<open>n < 0\<close>.\<close>

function str_nat :: "nat \<Rightarrow> string" where
  "str_nat n =
     (if n < 10 then [''0123456789'' ! n]
      else str_nat (n div 10) @ [''0123456789'' ! (n mod 10)])"
  by pat_completeness auto
termination
  by (relation "measure id") auto

declare str_nat.simps [simp del]

definition py_str :: "int \<Rightarrow> string" where
  "py_str n = (if n < 0 then CHR ''-'' # str_nat (nat (- n)) else str_nat (nat n))"

section \<open>The single-number evaluator\<close>

text \<open>
  The test of one rule in \<^verbatim>\<open>process_number\<close>. The source is an \<^verbatim>\<open>if\<close>/\<^verbatim>\<open>elif\<close> chain whose
  conditions start with the comparison of \<^verbatim>\<open>block.block_type\<close>, so exactly the branch of
  the rule's kind is evaluated. The chained comparison of the range rule reads
  \<^verbatim>\<open>props['end']\<close> only when \<^verbatim>\<open>props['start'] <= number\<close> holds.
\<close>

definition block_matches :: "int \<Rightarrow> int set \<Rightarrow> RuleBlock \<Rightarrow> py_error + bool" where
  "block_matches number' fibonacci_set block =
     (case block_type block of
        DIVISOR \<Rightarrow>
          (case getitem (properties block) ''divisor'' of
             Inl e \<Rightarrow> Inl e
           | Inr d \<Rightarrow> (case py_mod number' d of Inl e \<Rightarrow> Inl e | Inr r \<Rightarrow> Inr (r = 0)))
      | PRIME \<Rightarrow> is_prime number'
      | FIBONACCI \<Rightarrow> Inr (number' \<in> fibonacci_set)
      | RANGE \<Rightarrow>
          (case getitem (properties block) ''start'' of
             Inl e \<Rightarrow> Inl e
           | Inr lo \<Rightarrow>
               (case py_value_le_int lo number' of
                  Inl e \<Rightarrow> Inl e
                | Inr below \<Rightarrow>
                    if below then
                      (case getitem (properties block) ''end'' of
                         Inl e \<Rightarrow> Inl e
                       | Inr hi \<Rightarrow> py_int_le_value number' hi)
                    else Inr False)))"

text \<open>The loop over the sorted rules, with its two accumulators.\<close>

fun process_blocks ::
  "int \<Rightarrow> int set \<Rightarrow> RuleBlock list \<Rightarrow> py_value list \<Rightarrow> RuleBlock list
     \<Rightarrow> py_error + (py_value list \<times> RuleBlock list)" where
  "process_blocks number' fibonacci_set [] result_parts matching = Inr (result_parts, matching)"
| "process_blocks number' fibonacci_set (block # rest) result_parts matching =
     (case block_matches number' fibonacci_set block of
        Inl e \<Rightarrow> Inl e
      | Inr matches \<Rightarrow>
          if matches then
            (case getitem (properties block) ''word'' of
               Inl e \<Rightarrow> Inl e
             | Inr word \<Rightarrow>
                 process_blocks number' fibonacci_set rest
                   (result_parts @ [word]) (matching @ [block]))
          else process_blocks number' fibonacci_set rest result_parts matching)"

text \<open>
  \<^verbatim>\<open>get_result_type\<close>. The last \<^verbatim>\<open>else\<close> of the single-rule branch is unreachable: the
  four kinds are all there are.
\<close>

definition get_result_type :: "py_value list \<Rightarrow> RuleBlock list \<Rightarrow> string" where
  "get_result_type result_parts matching =
     (if result_parts = [] then ''number''
      else if length matching = 1 then
        (let block = hd matching in
         case block_type block of
           DIVISOR \<Rightarrow>
             (let word = dict_get (properties block) ''word'' (PyStr []) in
              if word = PyStr ''Fizz'' then ''Fizz''
              else if word = PyStr ''Buzz'' then ''Buzz''
              else ''divisor_custom'')
         | PRIME \<Rightarrow> ''Prime''
         | FIBONACCI \<Rightarrow> ''Fib''
         | RANGE \<Rightarrow> ''range_custom'')
      else
        (let fizz_blocks = filter (\<lambda>b. block_type b = DIVISOR
                                     \<and> properties b ''word'' = Some (PyStr ''Fizz'')) matching;
             buzz_blocks = filter (\<lambda>b. block_type b = DIVISOR
                                     \<and> properties b ''word'' = Some (PyStr ''Buzz'')) matching
         in if fizz_blocks \<noteq> [] \<and> buzz_blocks \<noteq> [] then ''FizzBuzz'' else ''combination''))"

text \<open>
  \<^verbatim>\<open>process_number\<close>. The optional argument \<^verbatim>\<open>fibonacci_set = None\<close> is an \<open>option\<close>;
  \<^verbatim>\<open>sorted(blocks, key=lambda b: b.order)\<close> is a stable sort, as \<open>sort_key\<close> is.
\<close>

definition process_number :: "int \<Rightarrow> RuleBlock list \<Rightarrow> int set option \<Rightarrow> py_error + FizzBuzzResult" where
  "process_number number' blocks fibonacci_set =
     (let fs = (case fibonacci_set of None \<Rightarrow> {} | Some s \<Rightarrow> s) in
      case process_blocks number' fs (sort_key order blocks) [] [] of
        Inl e \<Rightarrow> Inl e
      | Inr (result_parts, matching) \<Rightarrow>
          (case (if result_parts \<noteq> [] then py_join result_parts else Inr (py_str number')) of
             Inl e \<Rightarrow> Inl e
           | Inr final_text \<Rightarrow>
               Inr \<lparr>number = number', text = final_text,
                    result_type = get_result_type result_parts matching,
                    matching_blocks = matching\<rparr>))"

section \<open>The batch driver\<close>

text \<open>
  \<^verbatim>\<open>a / b\<close> on integers is the correctly rounded quotient; \<^verbatim>\<open>x * 100\<close> on a float is the
  rounded product (finite here: the engine multiplies a value of at most 1).
\<close>

definition int_truediv :: "int \<Rightarrow> int \<Rightarrow> py_error + pyfloat" where
  "int_truediv a b =
     (if b = 0 then Inl ZeroDivisionError
      else let x = round_double (of_int a / of_int b)
           in if pow2 1024 \<le> \<bar>x\<bar> then Inl OverflowError else Inr x)"

definition float_mul :: "pyfloat \<Rightarrow> pyfloat \<Rightarrow> pyfloat" where
  "float_mul x y = round_double (x * y)"

definition progress_value :: "int \<Rightarrow> int \<Rightarrow> py_error + pyfloat" where
  "progress_value i total_numbers =
     (case int_truediv (i + 1) total_numbers of
        Inl e \<Rightarrow> Inl e
      | Inr q \<Rightarrow> Inr (float_mul q 100))"

text \<open>
  The loop \<^verbatim>\<open>for i, number in enumerate(range(start, end + 1))\<close>. The progress callback is
  an effect: the model returns, beside the outcome, the list of the percentages the
  callback was called with, in order. \<open>has_callback\<close> is the truth value of
  \<^verbatim>\<open>progress_callback\<close> (\<open>False\<close> for \<^verbatim>\<open>None\<close>).
\<close>

fun batch_loop ::
  "bool \<Rightarrow> int \<Rightarrow> RuleBlock list \<Rightarrow> int set \<Rightarrow> int \<Rightarrow> int list \<Rightarrow> FizzBuzzResult list
     \<Rightarrow> pyfloat list \<Rightarrow> (py_error + FizzBuzzResult list) \<times> pyfloat list" where
  "batch_loop has_callback total_numbers blocks fibonacci_set i [] results calls =
     (Inr results, calls)"
| "batch_loop has_callback total_numbers blocks fibonacci_set i (number' # rest) results calls =
     (case process_number number' blocks (Some fibonacci_set) of
        Inl e \<Rightarrow> (Inl e, calls)
      | Inr result \<Rightarrow>
          if has_callback \<and> ((i + 1) mod 50 = 0 \<or> i = total_numbers - 1) then
            (case progress_value i total_numbers of
               Inl e \<Rightarrow> (Inl e, calls)
             | Inr progress \<Rightarrow>
                 batch_loop has_callback total_numbers blocks fibonacci_set (i + 1) rest
                   (results @ [result]) (calls @ [progress]))
          else
            batch_loop has_callback total_numbers blocks fibonacci_set (i + 1) rest
              (results @ [result]) calls)"

text \<open>
  \<^verbatim>\<open>generate_fizzbuzz_batch\<close>. The result is \<open>None\<close> when the Fibonacci loop does not
  return.
\<close>

definition generate_fizzbuzz_batch ::
  "int \<Rightarrow> int \<Rightarrow> RuleBlock list \<Rightarrow> bool
     \<Rightarrow> ((py_error + FizzBuzzResult list) \<times> pyfloat list) option" where
  "generate_fizzbuzz_batch start end' blocks has_callback =
     (if blocks = [] then Some (Inl (ValueError ''No blocks defined''), [])
      else if end' \<le> start then Some (Inl (ValueError ''Start must be less than end''), [])
      else if start < 1 then Some (Inl (ValueError ''Start must be at least 1''), [])
      else
        (case (if \<exists>b \<in> set blocks. block_type b = FIBONACCI
               then generate_fibonacci_set end' else Some {}) of
           None \<Rightarrow> None
         | Some fibonacci_set \<Rightarrow>
             Some (batch_loop has_callback (end' - start + 1) blocks fibonacci_set 0
                     [start..end'] [] [])))"

section \<open>Reference notions of the specification\<close>

text \<open>
  The notions the specification states its contracts with, written from its words and
  independent of the code above.
\<close>

text \<open>A prime is an integer greater than 1 with no divisor strictly between 1 and itself.\<close>

definition prime_int :: "int \<Rightarrow> bool" where
  "prime_int n \<longleftrightarrow> 1 < n \<and> (\<forall>d. 1 < d \<and> d < n \<longrightarrow> \<not> d dvd n)"

text \<open>
  The Fibonacci sequence 1, 1, 2, 3, 5, 8, \<dots> and the set of its members up to a bound.
\<close>

fun fib_seq :: "nat \<Rightarrow> int" where
  "fib_seq 0 = 1"
| "fib_seq (Suc 0) = 1"
| "fib_seq (Suc (Suc k)) = fib_seq k + fib_seq (Suc k)"

definition fibonacci_numbers_upto :: "int \<Rightarrow> int set" where
  "fibonacci_numbers_upto max_value = {x. \<exists>k. x = fib_seq k \<and> x \<le> max_value}"

text \<open>
  The word of a rule, and the condition of each kind of rule: a divisor-rule matches when
  \<open>n mod divisor = 0\<close>, a prime-rule when the primality test answers true, a
  fibonacci-rule when \<open>n\<close> is in the supplied set, a range-rule when
  \<open>start \<le> n \<le> end\<close>.
\<close>

definition word_of :: "RuleBlock \<Rightarrow> string" where
  "word_of b = (case properties b ''word'' of Some (PyStr w) \<Rightarrow> w | _ \<Rightarrow> [])"

text \<open>The value the evaluator appends to \<^verbatim>\<open>result_parts\<close> for a matching rule.\<close>

definition raw_word :: "RuleBlock \<Rightarrow> py_value" where
  "raw_word b = dict_get (properties b) ''word'' (PyStr [])"

definition rule_matches :: "int \<Rightarrow> int set \<Rightarrow> RuleBlock \<Rightarrow> bool" where
  "rule_matches n fib_set b =
     (case block_type b of
        DIVISOR \<Rightarrow>
          (case properties b ''divisor'' of Some (PyInt d) \<Rightarrow> n mod d = 0 | _ \<Rightarrow> False)
      | PRIME \<Rightarrow> is_prime n = Inr True
      | FIBONACCI \<Rightarrow> n \<in> fib_set
      | RANGE \<Rightarrow>
          (case properties b ''start'' of
             Some (PyInt lo) \<Rightarrow>
               (case properties b ''end'' of Some (PyInt hi) \<Rightarrow> lo \<le> n \<and> n \<le> hi | _ \<Rightarrow> False)
           | _ \<Rightarrow> False))"

text \<open>
  The property-bag contracts of the data model: every rule has a non-empty word, a
  divisor-rule a positive integer divisor, a range-rule integers \<open>start < end\<close>.
\<close>

definition well_formed_rule :: "RuleBlock \<Rightarrow> bool" where
  "well_formed_rule b =
     ((case properties b ''word'' of Some (PyStr w) \<Rightarrow> w \<noteq> [] | _ \<Rightarrow> False) \<and>
      (case block_type b of
         DIVISOR \<Rightarrow> (case properties b ''divisor'' of Some (PyInt d) \<Rightarrow> 0 < d | _ \<Rightarrow> False)
       | PRIME \<Rightarrow> True
       | FIBONACCI \<Rightarrow> True
       | RANGE \<Rightarrow>
           (case properties b ''start'' of
              Some (PyInt lo) \<Rightarrow>
                (case properties b ''end'' of Some (PyInt hi) \<Rightarrow> lo < hi | _ \<Rightarrow> False)
            | _ \<Rightarrow> False)))"

text \<open>
  The inputs on which the evaluator returns: well-formed rules and, for a prime-rule, a
  number that the primality test can convert to a float (every \<open>n < 2\<^sup>1\<^sup>0\<^sup>2\<^sup>3\<close> is).
\<close>

definition float_limit :: int where
  "float_limit = 2 ^ 1023"

definition evaluable :: "int \<Rightarrow> RuleBlock list \<Rightarrow> bool" where
  "evaluable n blocks \<longleftrightarrow>
     (\<forall>b \<in> set blocks. well_formed_rule b \<and> (block_type b = PRIME \<longrightarrow> n < float_limit))"

text \<open>The classification tag, as the specification words it.\<close>

definition divisor_with_word :: "string \<Rightarrow> RuleBlock \<Rightarrow> bool" where
  "divisor_with_word w b \<longleftrightarrow> block_type b = DIVISOR \<and> properties b ''word'' = Some (PyStr w)"

definition classify :: "RuleBlock list \<Rightarrow> string" where
  "classify matched =
     (case matched of
        [] \<Rightarrow> ''number''
      | [b] \<Rightarrow>
          (case block_type b of
             DIVISOR \<Rightarrow>
               if properties b ''word'' = Some (PyStr ''Fizz'') then ''Fizz''
               else if properties b ''word'' = Some (PyStr ''Buzz'') then ''Buzz''
               else ''divisor_custom''
           | PRIME \<Rightarrow> ''Prime''
           | FIBONACCI \<Rightarrow> ''Fib''
           | RANGE \<Rightarrow> ''range_custom'')
      | b # c # rest \<Rightarrow>
          if (\<exists>x \<in> set matched. divisor_with_word ''Fizz'' x)
             \<and> (\<exists>x \<in> set matched. divisor_with_word ''Buzz'' x)
          then ''FizzBuzz'' else ''combination'')"

text \<open>
  The value of a string of decimal digits, to state that \<^verbatim>\<open>str(n)\<close> is the decimal form
  of \<open>n\<close>.
\<close>

definition digit_value :: "char \<Rightarrow> nat" where
  "digit_value c = of_char c - 48"

definition decimal_value :: "string \<Rightarrow> nat" where
  "decimal_value s = foldl (\<lambda>a c. 10 * a + digit_value c) 0 s"

text \<open>
  A call of \<^verbatim>\<open>process_number\<close> with the caller's objects as explicit state: the rule list
  and the Fibonacci set are passed by reference. The function sorts into a new list,
  rebinds only its local \<^verbatim>\<open>fibonacci_set\<close> and appends only to its two local lists, so
  the state it returns is the state it was given.
\<close>

record caller_objects =
  blocks_object :: "RuleBlock list"
  fibonacci_set_object :: "int set option"

definition call_process_number ::
  "int \<Rightarrow> caller_objects \<Rightarrow> (py_error + FizzBuzzResult) \<times> caller_objects" where
  "call_process_number n objs =
     (process_number n (blocks_object objs) (fibonacci_set_object objs), objs)"

text \<open>The rules of the specification's examples.\<close>

definition divisor_rule :: "string \<Rightarrow> int \<Rightarrow> string \<Rightarrow> int \<Rightarrow> RuleBlock" where
  "divisor_rule nm d w k =
     \<lparr>id' = nm, block_type = DIVISOR, name = nm,
      properties = [''divisor'' \<mapsto> PyInt d, ''word'' \<mapsto> PyStr w], order = k\<rparr>"

definition fibonacci_rule :: "string \<Rightarrow> int \<Rightarrow> RuleBlock" where
  "fibonacci_rule w k =
     \<lparr>id' = ''fib'', block_type = FIBONACCI, name = ''fib'',
      properties = [''word'' \<mapsto> PyStr w], order = k\<rparr>"

definition prime_rule :: "string \<Rightarrow> int \<Rightarrow> RuleBlock" where
  "prime_rule w k =
     \<lparr>id' = ''prime'', block_type = PRIME, name = ''prime'',
      properties = [''word'' \<mapsto> PyStr w], order = k\<rparr>"

text \<open>
  The percentage reported after \<open>k\<close> of \<open>total\<close> numbers, \<^verbatim>\<open>k / total * 100\<close> in floats, and
  the reports of a complete run: one after every number whose count is a multiple of 50
  and one after the last number.
\<close>

definition progress_of :: "int \<Rightarrow> int \<Rightarrow> pyfloat" where
  "progress_of k tot = float_mul (round_double (of_int k / of_int tot)) 100"

definition expected_calls :: "int \<Rightarrow> pyfloat list" where
  "expected_calls tot =
     map (\<lambda>k. progress_of k tot) (filter (\<lambda>k. k mod 50 = 0 \<or> k = tot) [1..tot])"

text \<open>The Fibonacci set the batch driver evaluates with.\<close>

definition batch_fibonacci_set :: "int \<Rightarrow> RuleBlock list \<Rightarrow> int set" where
  "batch_fibonacci_set end' blocks =
     (if \<exists>b \<in> set blocks. block_type b = FIBONACCI then fibonacci_numbers_upto end' else {})"

section \<open>Properties of the floating-point layer\<close>

lemma pow2_powi: "pow2 k = 2 powi k"
  by (simp add: pow2_def power_int_def field_simps)

lemma pow2_pos [simp]: "0 < pow2 k"
  by (simp add: pow2_powi)

lemma pow2_add: "pow2 (a + b) = pow2 a * pow2 b"
  by (simp add: pow2_powi power_int_add)

lemma pow2_neq0 [simp]: "pow2 k \<noteq> 0"
  using pow2_pos [of k] by linarith

lemma pow2_nonneg [simp]: "0 \<le> pow2 k"
  using pow2_pos [of k] by linarith

lemma pow2_diff: "pow2 (a - b) = pow2 a / pow2 b"
  using pow2_add [of "a - b" b] by (simp add: nonzero_eq_divide_eq)

lemma pow2_mono: "a \<le> b \<Longrightarrow> pow2 a \<le> pow2 b"
  by (simp add: pow2_powi power_int_increasing)

lemma pow2_strict_mono: "a < b \<Longrightarrow> pow2 a < pow2 b"
  by (simp add: pow2_powi power_int_strict_increasing)

lemma pow2_less_iff: "pow2 a < pow2 b \<longleftrightarrow> a < b"
  using pow2_mono [of b a] pow2_strict_mono [of a b] by (auto simp: not_le [symmetric])

lemma pow2_le_iff: "pow2 a \<le> pow2 b \<longleftrightarrow> a \<le> b"
  using pow2_mono [of a b] pow2_strict_mono [of b a] by (auto simp: not_less [symmetric])

lemma pow2_nat: "0 \<le> k \<Longrightarrow> pow2 k = of_int (2 ^ nat k)"
  by (simp add: pow2_def)

lemma pow2_0 [simp]: "pow2 0 = 1"
  by (simp add: pow2_def)

lemma floor_log2_bounds:
  assumes "0 < x"
  shows "pow2 (floor_log2 x) \<le> x" and "x < pow2 (floor_log2 x + 1)"
proof -
  obtain a b where q: "quotient_of x = (a, b)"
    by (cases "quotient_of x")
  have b: "0 < b" and x: "x = of_int a / of_int b"
    using q by (rule quotient_of_denom_pos, rule quotient_of_div)
  have a: "0 < a"
    using assms b x by (simp add: zero_less_divide_iff)
  define d where "d = bitlen a - bitlen b"
  have la: "1 \<le> bitlen a" and lb: "1 \<le> bitlen b"
    using a b bitlen_eq_zero_iff [of a] bitlen_eq_zero_iff [of b] bitlen_nonneg [of a] bitlen_nonneg [of b]
    by linarith+
  have pw: "pow2 (bitlen c - 1) \<le> of_int c \<and> (of_int c :: rat) < pow2 (bitlen c)" if c: "0 < c" for c
  proof -
    have l: "0 \<le> bitlen c - 1" "0 \<le> bitlen c"
      using c bitlen_eq_zero_iff [of c] bitlen_nonneg [of c] by linarith+
    have "(of_int (2 ^ nat (bitlen c - 1)) :: rat) \<le> of_int c"
      and "(of_int c :: rat) < of_int (2 ^ nat (bitlen c))"
      using bitlen_bounds [OF c] by (simp_all only: of_int_le_iff of_int_less_iff)
    then show ?thesis by (simp only: pow2_nat [OF l(1)] pow2_nat [OF l(2)])
  qed
  have a1: "pow2 (bitlen a - 1) \<le> of_int a" and a2: "(of_int a :: rat) < pow2 (bitlen a)"
    using pw [OF a] by simp_all
  have b1: "pow2 (bitlen b - 1) \<le> of_int b" and b2: "(of_int b :: rat) < pow2 (bitlen b)"
    using pw [OF b] by simp_all
  have up: "x < pow2 (d + 1)"
  proof -
    have "x * of_int b = of_int a" using b x by simp
    also have "\<dots> < pow2 (bitlen a)" by (rule a2)
    also have "\<dots> = pow2 (d + 1) * pow2 (bitlen b - 1)"
      by (simp add: d_def flip: pow2_add)
    also have "\<dots> \<le> pow2 (d + 1) * of_int b"
      using b1 by (simp add: mult_left_mono less_imp_le)
    finally show ?thesis using b by simp
  qed
  have lo: "pow2 (d - 1) < x"
  proof -
    have "pow2 (d - 1) * of_int b < pow2 (d - 1) * pow2 (bitlen b)"
      using b2 by (simp add: mult_strict_left_mono)
    also have "\<dots> = pow2 (bitlen a - 1)"
      by (simp add: d_def flip: pow2_add)
    also have "\<dots> \<le> of_int a" by (rule a1)
    also have "\<dots> = x * of_int b" using b x by simp
    finally show ?thesis using b by simp
  qed
  have fl: "floor_log2 x = (if pow2 d \<le> x then d else d - 1)"
    by (simp add: floor_log2_def q d_def Let_def)
  show "pow2 (floor_log2 x) \<le> x"
    using lo by (simp add: fl less_imp_le)
  show "x < pow2 (floor_log2 x + 1)"
    using up by (simp add: fl not_le)
qed

lemma floor_log2_unique:
  assumes "pow2 e \<le> x" and "x < pow2 (e + 1)"
  shows "floor_log2 x = e"
proof -
  have x: "0 < x" using assms(1) pow2_pos [of e] by linarith
  have "pow2 (floor_log2 x) < pow2 (e + 1)"
    using floor_log2_bounds(1) [OF x] assms(2) by linarith
  moreover have "pow2 e < pow2 (floor_log2 x + 1)"
    using floor_log2_bounds(2) [OF x] assms(1) by linarith
  ultimately show ?thesis by (simp add: pow2_less_iff)
qed

lemma floor_log2_less: "0 < x \<Longrightarrow> x < pow2 k \<Longrightarrow> floor_log2 x < k"
  using floor_log2_bounds(1) [of x] pow2_less_iff [of "floor_log2 x" k] by linarith

lemma floor_log2_ge: "pow2 k \<le> x \<Longrightarrow> k \<le> floor_log2 x"
proof -
  assume k: "pow2 k \<le> x"
  then have x: "0 < x" using pow2_pos [of k] by linarith
  have "pow2 k < pow2 (floor_log2 x + 1)"
    using floor_log2_bounds(2) [OF x] k by linarith
  then show ?thesis by (simp add: pow2_less_iff)
qed

lemma round_half_even_floor: "\<lfloor>x\<rfloor> \<le> round_half_even x"
  by (simp add: round_half_even_def Let_def)

lemma round_half_even_ceiling: "round_half_even x \<le> \<lceil>x\<rceil>"
proof (cases "x = of_int \<lfloor>x\<rfloor>")
  case True
  then have "round_half_even x = \<lfloor>x\<rfloor>" by (simp add: round_half_even_def Let_def)
  then show ?thesis by simp
next
  case False
  then have "\<lceil>x\<rceil> = \<lfloor>x\<rfloor> + 1"
    by (metis ceiling_altdef)
  then show ?thesis by (simp add: round_half_even_def Let_def)
qed

lemma round_half_even_ge: "of_int k \<le> x \<Longrightarrow> k \<le> round_half_even x"
  using round_half_even_floor [of x] le_floor_iff [of k x] by linarith

lemma round_half_even_le: "x \<le> of_int k \<Longrightarrow> round_half_even x \<le> k"
  using round_half_even_ceiling [of x] by (meson ceiling_le order_trans)

lemma round_half_even_of_int [simp]: "round_half_even (of_int k) = k"
  by (simp add: round_half_even_def)

lemma round_double_pos_le:
  assumes "x \<le> of_int k * pow2 q" and "max (floor_log2 x - 52) (- 1074) \<le> q"
  shows "round_double_pos x \<le> of_int k * pow2 q"
proof -
  define p where "p = max (floor_log2 x - 52) (- 1074)"
  have pq: "0 \<le> q - p" using assms(2) by (simp add: p_def)
  have c: "of_int k * pow2 q = of_int (k * 2 ^ nat (q - p)) * pow2 p"
    using pow2_add [of "q - p" p] pq by (simp add: pow2_nat)
  have "x / pow2 p \<le> of_int (k * 2 ^ nat (q - p))"
    using assms(1) unfolding c by (simp add: field_simps)
  then have "round_half_even (x / pow2 p) \<le> k * 2 ^ nat (q - p)"
    by (rule round_half_even_le)
  then have "(of_int (round_half_even (x / pow2 p)) :: rat) \<le> of_int (k * 2 ^ nat (q - p))"
    by (simp only: of_int_le_iff)
  then show ?thesis
    unfolding c round_double_pos_def Let_def p_def [symmetric]
    by (simp add: mult_right_mono less_imp_le)
qed

lemma round_double_pos_ge:
  assumes "of_int k * pow2 q \<le> x" and "max (floor_log2 x - 52) (- 1074) \<le> q"
  shows "of_int k * pow2 q \<le> round_double_pos x"
proof -
  define p where "p = max (floor_log2 x - 52) (- 1074)"
  have pq: "0 \<le> q - p" using assms(2) by (simp add: p_def)
  have c: "of_int k * pow2 q = of_int (k * 2 ^ nat (q - p)) * pow2 p"
    using pow2_add [of "q - p" p] pq by (simp add: pow2_nat)
  have "of_int (k * 2 ^ nat (q - p)) \<le> x / pow2 p"
    using assms(1) unfolding c by (simp add: field_simps)
  then have "k * 2 ^ nat (q - p) \<le> round_half_even (x / pow2 p)"
    by (rule round_half_even_ge)
  then have "(of_int (k * 2 ^ nat (q - p)) :: rat) \<le> of_int (round_half_even (x / pow2 p))"
    by (simp only: of_int_le_iff)
  then show ?thesis
    unfolding c round_double_pos_def Let_def p_def [symmetric]
    by (simp add: mult_right_mono less_imp_le)
qed

lemma round_double_pos_exact:
  assumes "max (floor_log2 (of_int k * pow2 q) - 52) (- 1074) \<le> q"
  shows "round_double_pos (of_int k * pow2 q) = of_int k * pow2 q"
  using round_double_pos_le [OF order_refl assms] round_double_pos_ge [OF order_refl assms]
  by (rule antisym)

section \<open>Properties of the primality test\<close>

lemma isqrt_bounds:
  "0 \<le> n \<Longrightarrow> 0 \<le> isqrt n \<and> isqrt n * isqrt n \<le> n \<and> n < (isqrt n + 1) * (isqrt n + 1)"
proof (induction n rule: isqrt.induct)
  case (1 n)
  show ?case
  proof (cases "n < 1")
    case True
    with "1.prems" have "n = 0" by simp
    then show ?thesis by (simp add: isqrt.simps)
  next
    case False
    define s where "s = isqrt (n div 4)"
    have ih: "0 \<le> s" "s * s \<le> n div 4" "n div 4 < (s + 1) * (s + 1)"
      using "1.IH" [OF False] "1.prems" by (simp_all add: s_def)
    have q: "4 * (n div 4) \<le> n" "n < 4 * (n div 4) + 4"
      by simp_all
    have lo: "(2 * s) * (2 * s) \<le> n"
      using ih(2) q(1) by (simp add: algebra_simps)
    have hi: "n < (2 * s + 2) * (2 * s + 2)"
      using ih(3) q(2) by (simp add: algebra_simps)
    have eq: "isqrt n = (if (2 * s + 1) * (2 * s + 1) \<le> n then 2 * s + 1 else 2 * s)"
      using False by (subst isqrt.simps) (simp add: s_def Let_def)
    show ?thesis
    proof (cases "(2 * s + 1) * (2 * s + 1) \<le> n")
      case True
      then show ?thesis using ih(1) hi by (simp add: eq algebra_simps)
    next
      case False
      then show ?thesis using ih(1) lo by (simp add: eq algebra_simps)
    qed
  qed
qed

lemma isqrt_greatest:
  assumes "0 \<le> d" and "d * d \<le> n"
  shows "d \<le> isqrt n"
proof (rule ccontr)
  assume "\<not> d \<le> isqrt n"
  then have d: "isqrt n + 1 \<le> d" by simp
  have n: "0 \<le> n" using assms by (meson order_trans zero_le_square)
  have "(isqrt n + 1) * (isqrt n + 1) \<le> d * d"
    using d isqrt_bounds [OF n] by (intro mult_mono) simp_all
  then show False using isqrt_bounds [OF n] assms(2) by linarith
qed

lemma is_prime_loop_iff:
  "is_prime_loop n i stop \<longleftrightarrow> (\<forall>j. i \<le> j \<and> j < stop \<and> even (j - i) \<longrightarrow> n mod j \<noteq> 0)"
proof (induction n i stop rule: is_prime_loop.induct)
  case (1 n i stop)
  show ?case
  proof (cases "i < stop")
    case False
    then show ?thesis by (subst is_prime_loop.simps) auto
  next
    case True
    show ?thesis
    proof (cases "n mod i = 0")
      case z: True
      have "\<not> is_prime_loop n i stop"
        using True z by (subst is_prime_loop.simps) simp
      moreover have "\<not> (\<forall>j. i \<le> j \<and> j < stop \<and> even (j - i) \<longrightarrow> n mod j \<noteq> 0)"
      proof
        assume "\<forall>j. i \<le> j \<and> j < stop \<and> even (j - i) \<longrightarrow> n mod j \<noteq> 0"
        then have "i \<le> i \<and> i < stop \<and> even (i - i) \<longrightarrow> n mod i \<noteq> 0" by (rule spec)
        then show False using True z by simp
      qed
      ultimately show ?thesis by simp
    next
      case nz: False
      have step: "is_prime_loop n i stop = is_prime_loop n (i + 2) stop"
        using True nz by (subst is_prime_loop.simps) simp
      have ih: "is_prime_loop n (i + 2) stop
          \<longleftrightarrow> (\<forall>j. i + 2 \<le> j \<and> j < stop \<and> even (j - (i + 2)) \<longrightarrow> n mod j \<noteq> 0)"
        using "1.IH" [OF True nz] .
      have "(i + 2 \<le> j \<and> j < stop \<and> even (j - (i + 2)) \<longrightarrow> n mod j \<noteq> 0)
          \<longleftrightarrow> (i \<le> j \<and> j < stop \<and> even (j - i) \<longrightarrow> n mod j \<noteq> 0)" for j
      proof (cases "j = i")
        case True
        then show ?thesis using nz by simp
      next
        case False
        have "i + 2 \<le> j" if "i \<le> j" "even (j - i)"
        proof -
          have "j - i \<noteq> 1"
          proof
            assume "j - i = 1"
            with that(2) show False by simp
          qed
          then show ?thesis using False that(1) by linarith
        qed
        moreover have "even (j - (i + 2)) \<longleftrightarrow> even (j - i)" by simp
        moreover have "i + 2 \<le> j \<Longrightarrow> i \<le> j" by linarith
        ultimately show ?thesis by metis
      qed
      then show ?thesis unfolding step ih by simp
    qed
  qed
qed

lemma is_prime_loop_3:
  "is_prime_loop n 3 (r + 1) \<longleftrightarrow> (\<forall>j. 3 \<le> j \<and> j \<le> r \<and> odd j \<longrightarrow> \<not> j dvd n)"
proof -
  have "(3 \<le> j \<and> j < r + 1 \<and> even (j - 3)) = (3 \<le> j \<and> j \<le> r \<and> odd j)" for j :: int
    by auto
  then show ?thesis
    unfolding is_prime_loop_iff by (simp add: dvd_eq_mod_eq_0)
qed

lemma odd_prime_by_trial:
  assumes n: "3 \<le> n" "odd n"
    and lo: "\<And>d. 0 \<le> d \<Longrightarrow> d * d \<le> n \<Longrightarrow> d \<le> r"
    and hi: "r < n"
  shows "(\<forall>j. 3 \<le> j \<and> j \<le> r \<and> odd j \<longrightarrow> \<not> j dvd n) \<longleftrightarrow> prime_int n"
proof
  assume "prime_int n"
  then show "\<forall>j. 3 \<le> j \<and> j \<le> r \<and> odd j \<longrightarrow> \<not> j dvd n"
    using hi by (auto simp: prime_int_def)
next
  assume h: "\<forall>j. 3 \<le> j \<and> j \<le> r \<and> odd j \<longrightarrow> \<not> j dvd n"
  have "\<not> d dvd n" if d: "1 < d" "d < n" for d
  proof
    assume "d dvd n"
    then obtain c where c: "n = d * c" by (rule dvdE)
    have cpos: "0 < c"
    proof -
      have "0 < d * c" using c n(1) by simp
      moreover have "0 < d" using d(1) by simp
      ultimately show ?thesis by (rule zero_less_mult_pos)
    qed
    have c1: "1 < c"
    proof (rule ccontr)
      assume "\<not> 1 < c"
      then have "c = 1" using cpos by simp
      then show False using c d(2) by simp
    qed
    have od: "odd d" "odd c" using n(2) c by simp_all
    define j where "j = min d c"
    have j3: "3 \<le> j" "odd j"
      using od d(1) c1 by (auto simp: j_def min_def elim!: oddE)
    have jn: "j dvd n" using c by (auto simp: j_def min_def)
    have "j * j \<le> d * c"
      using d(1) cpos by (intro mult_mono) (auto simp: j_def)
    then have "j \<le> r" using lo [of j] j3(1) c by simp
    moreover have "3 \<le> j \<and> j \<le> r \<and> odd j \<longrightarrow> \<not> j dvd n" using h by (rule spec)
    ultimately show False using j3 jn by simp
  qed
  then show "prime_int n" using n(1) by (simp add: prime_int_def)
qed

lemma floor_log2_int_less_53:
  assumes "0 < n" and "n < 2 ^ 53"
  shows "floor_log2 (of_int n) < 53"
proof -
  have "(of_int n :: rat) < of_int (2 ^ 53)"
    using assms(2) by (simp only: of_int_less_iff)
  then have "(of_int n :: rat) < pow2 53"
    by (simp add: pow2_nat)
  then show ?thesis
    using assms(1) by (intro floor_log2_less) simp_all
qed

lemma round_double_int_exact:
  assumes "0 < n" and "n < 2 ^ 53"
  shows "round_double (of_int n) = of_int n"
proof -
  have "max (floor_log2 (of_int n * pow2 0) - 52) (- 1074) \<le> 0"
    using floor_log2_int_less_53 [OF assms] by simp
  then have "round_double_pos (of_int n * pow2 0) = of_int n * pow2 0"
    by (rule round_double_pos_exact)
  then show ?thesis using assms(1) by (simp add: round_double_def)
qed

lemma float_of_int_exact:
  assumes "0 < n" and "n < 2 ^ 53"
  shows "float_of_int n = Inr (of_int n)"
proof -
  have "(of_int n :: rat) < of_int (2 ^ 53)"
    using assms(2) by (simp only: of_int_less_iff)
  then have "(of_int n :: rat) < pow2 53"
    by (simp add: pow2_nat)
  also have "\<dots> \<le> pow2 1024"
    by (rule pow2_mono) simp
  finally have "\<not> pow2 1024 \<le> \<bar>of_int n :: rat\<bar>"
    using assms(1) by simp
  then show ?thesis
    by (simp add: float_of_int_def round_double_int_exact [OF assms] Let_def)
qed

text \<open>
  For \<open>3 \<le> n < 2\<^sup>5\<^sup>3\<close> the rounded square root, truncated, is some \<open>s div K\<close> with
  \<open>K\<close> a power of two and \<open>s\<close> the integer square root of \<open>n * K\<^sup>2\<close> or its successor.
\<close>

lemma int_sqrt_double_shape:
  assumes "3 \<le> n" and "n < 2 ^ 53"
  shows "\<exists>K s. 2 \<le> K \<and> isqrt (n * K * K) \<le> s \<and> s \<le> isqrt (n * K * K) + 1
           \<and> int_of_float (sqrt_double (of_int n)) = s div K"
proof -
  define p where "p = floor_log2 (of_int n) div 2 - 52"
  define K :: int where "K = 2 ^ nat (- p)"
  have n0: "0 < n" using assms(1) by simp
  have "floor_log2 (of_int n) < 53"
    by (rule floor_log2_int_less_53 [OF n0 assms(2)])
  then have p: "p < 0" by (simp add: p_def)
  then have "1 \<le> nat (- p)" by simp
  then have "(2::int) ^ 1 \<le> 2 ^ nat (- p)"
    by (intro power_increasing) simp_all
  then have K2: "2 \<le> K" by (simp add: K_def)
  have pK: "pow2 p = 1 / of_int K"
    using p by (simp add: pow2_def K_def)
  have p2K: "pow2 (2 * p) = 1 / of_int (K * K)"
    using pow2_add [of p p] by (simp add: pK)
  define y :: rat where "y = of_int n / pow2 (2 * p)"
  have y: "y = of_int (n * K * K)"
    using K2 by (simp add: y_def p2K)
  define m where "m = isqrt \<lfloor>y\<rfloor>"
  have m: "m = isqrt (n * K * K)"
    by (simp only: m_def y floor_of_int)
  define s where "s = (if of_int (m * m + m) + 1 / 4 < y then m + 1 else m)"
  have s: "m \<le> s" "s \<le> m + 1" by (simp_all add: s_def)
  have nK: "0 \<le> n * K * K" using n0 K2 by simp
  have m0: "0 \<le> m" using isqrt_bounds [OF nK] by (simp add: m)
  then have s0: "0 \<le> s" using s(1) by simp
  have "sqrt_double (of_int n) = of_int s * pow2 p"
    using n0 unfolding sqrt_double_def Let_def p_def [symmetric] y_def [symmetric]
      m_def [symmetric] s_def
    by (simp add: if_distrib [of "\<lambda>v. of_int v * pow2 p"])
  then have "sqrt_double (of_int n) = of_int s / of_int K"
    by (simp add: pK)
  moreover have "(0::rat) \<le> of_int s / of_int K"
    using s0 K2 by simp
  ultimately have "int_of_float (sqrt_double (of_int n)) = s div K"
    by (simp add: int_of_float_def floor_divide_of_int_eq)
  then show ?thesis using K2 s m by blast
qed

lemma int_sqrt_double_bounds:
  assumes "3 \<le> n" and "n < 2 ^ 53"
  shows "\<forall>d. 0 \<le> d \<and> d * d \<le> n \<longrightarrow> d \<le> int_of_float (sqrt_double (of_int n))"
    and "int_of_float (sqrt_double (of_int n)) < n"
proof -
  obtain K s where K2: "2 \<le> K"
    and s1: "isqrt (n * K * K) \<le> s" and s2: "s \<le> isqrt (n * K * K) + 1"
    and r: "int_of_float (sqrt_double (of_int n)) = s div K"
    using int_sqrt_double_shape [OF assms] by blast
  define m where "m = isqrt (n * K * K)"
  have nK: "0 \<le> n * K * K" using assms(1) K2 by simp
  have mm: "m * m \<le> n * K * K" and m0: "0 \<le> m"
    using isqrt_bounds [OF nK] by (simp_all add: m_def)
  show "\<forall>d. 0 \<le> d \<and> d * d \<le> n \<longrightarrow> d \<le> int_of_float (sqrt_double (of_int n))"
  proof (intro allI impI)
    fix d assume d: "0 \<le> d \<and> d * d \<le> n"
    have "(d * d) * (K * K) \<le> n * (K * K)"
      using d by (intro mult_right_mono) simp_all
    then have "(d * K) * (d * K) \<le> n * K * K"
      by (simp add: algebra_simps)
    moreover have "0 \<le> d * K" using d K2 by simp
    ultimately have "d * K \<le> isqrt (n * K * K)"
      by (intro isqrt_greatest)
    then have "d * K \<le> s" using s1 by linarith
    then have "(d * K) div K \<le> s div K"
      using K2 by (intro zdiv_mono1) simp_all
    then show "d \<le> int_of_float (sqrt_double (of_int n))"
      using K2 by (simp add: r)
  qed
  have "m + 1 < n * K"
  proof (rule ccontr)
    assume "\<not> m + 1 < n * K"
    then have "n * K - 1 \<le> m" by simp
    moreover have "(n - 1) * K + 1 \<le> n * K - 1"
      using K2 by (simp add: algebra_simps)
    ultimately have a: "(n - 1) * K + 1 \<le> m" by linarith
    have b0: "0 \<le> (n - 1) * K + 1" using assms(1) K2 by simp
    have "((n - 1) * K + 1) * ((n - 1) * K + 1) \<le> m * m"
      using a b0 by (intro mult_mono) simp_all
    moreover have "t * t < (t + 1) * (t + 1)" if "0 \<le> t" for t :: int
      using that by (simp add: algebra_simps)
    then have "((n - 1) * K) * ((n - 1) * K) < ((n - 1) * K + 1) * ((n - 1) * K + 1)"
      using assms(1) K2 by simp
    ultimately have c: "((n - 1) * (n - 1)) * (K * K) < m * m"
      by (simp add: algebra_simps)
    have "n * (n - 3) \<ge> 0" using assms(1) by simp
    then have "n + 1 \<le> (n - 1) * (n - 1)" by (simp add: algebra_simps)
    then have "(n + 1) * (K * K) \<le> ((n - 1) * (n - 1)) * (K * K)"
      by (intro mult_right_mono) simp_all
    moreover have "n * K * K < (n + 1) * (K * K)"
      using K2 by (simp add: algebra_simps)
    ultimately show False using c mm by linarith
  qed
  then have "s < n * K" using s2 by (simp add: m_def)
  moreover have "K * (s div K) \<le> s"
    using mult_div_mod_eq [of K s] pos_mod_sign [of K s] K2 by linarith
  ultimately have "K * (s div K) < K * n"
    by (simp add: mult.commute)
  then have "s div K < n"
    using K2 by (simp add: mult_less_cancel_left_pos)
  then show "int_of_float (sqrt_double (of_int n)) < n"
    by (simp add: r)
qed

lemma round_double_pos_nonneg: "0 < x \<Longrightarrow> 0 \<le> round_double_pos x"
proof -
  assume x: "0 < x"
  define p where "p = max (floor_log2 x - 52) (- 1074)"
  have "of_int 0 \<le> x / pow2 p" using x pow2_pos [of p] by (simp add: less_imp_le)
  then have "0 \<le> round_half_even (x / pow2 p)" by (rule round_half_even_ge)
  then have "(0::rat) \<le> of_int (round_half_even (x / pow2 p)) * pow2 p"
    by (intro mult_nonneg_nonneg) simp_all
  then show ?thesis
    unfolding round_double_pos_def Let_def p_def [symmetric] .
qed

lemma round_double_pos_pow2_le:
  assumes "0 < x" and "x \<le> pow2 q" and "- 1074 \<le> q"
  shows "round_double_pos x \<le> pow2 q"
proof -
  have "floor_log2 x \<le> q"
  proof (rule ccontr)
    assume "\<not> floor_log2 x \<le> q"
    then have "pow2 (q + 1) \<le> pow2 (floor_log2 x)" by (intro pow2_mono) simp
    moreover have "pow2 q < pow2 (q + 1)" by (intro pow2_strict_mono) simp
    ultimately show False using floor_log2_bounds(1) [OF assms(1)] assms(2) by linarith
  qed
  then have "max (floor_log2 x - 52) (- 1074) \<le> q" using assms(3) by simp
  moreover have "x \<le> of_int 1 * pow2 q" using assms(2) by simp
  ultimately have "round_double_pos x \<le> of_int 1 * pow2 q" by (rule round_double_pos_le [rotated])
  then show ?thesis by simp
qed

lemma round_double_pos_pow2_ge:
  assumes "pow2 q \<le> x" and "- 1074 \<le> q"
  shows "pow2 q \<le> round_double_pos x"
proof -
  define e where "e = floor_log2 x"
  have x: "0 < x" using assms(1) pow2_pos [of q] by linarith
  have qe: "q \<le> e" unfolding e_def using assms(1) by (rule floor_log2_ge)
  have "of_int 1 * pow2 e \<le> x"
    using floor_log2_bounds(1) [OF x] by (simp add: e_def)
  moreover have "max (floor_log2 x - 52) (- 1074) \<le> e"
    using qe assms(2) by (simp add: e_def)
  ultimately have "of_int 1 * pow2 e \<le> round_double_pos x"
    by (rule round_double_pos_ge)
  moreover have "pow2 q \<le> pow2 e" using qe by (rule pow2_mono)
  ultimately show ?thesis by simp
qed

lemma float_of_int_overflow:
  assumes "2 ^ 1024 \<le> n"
  shows "float_of_int n = Inl OverflowError"
proof -
  have "(of_int (2 ^ 1024) :: rat) \<le> of_int n"
    using assms by (simp only: of_int_le_iff)
  then have x: "pow2 1024 \<le> of_int n" by (simp add: pow2_nat)
  then have "pow2 1024 \<le> round_double_pos (of_int n)"
    by (rule round_double_pos_pow2_ge) simp
  moreover have "(0::rat) < of_int n" using x pow2_pos [of 1024] by linarith
  ultimately have "pow2 1024 \<le> \<bar>round_double (of_int n)\<bar>"
    by (simp add: round_double_def)
  then show ?thesis by (simp add: float_of_int_def Let_def)
qed

lemma float_of_int_returns:
  assumes "0 < n" and "n < 2 ^ 1023"
  shows "\<exists>x. float_of_int n = Inr x \<and> 0 \<le> x"
proof -
  have "(of_int n :: rat) < of_int (2 ^ 1023)"
    using assms(2) by (simp only: of_int_less_iff)
  then have x: "(of_int n :: rat) \<le> pow2 1023" by (simp add: pow2_nat)
  have n0: "(0::rat) < of_int n" using assms(1) by simp
  have "round_double_pos (of_int n) \<le> pow2 1023"
    using n0 x by (rule round_double_pos_pow2_le) simp
  moreover have "pow2 1023 < pow2 1024" by (rule pow2_strict_mono) simp
  moreover have "0 \<le> round_double_pos (of_int n)"
    using n0 by (rule round_double_pos_nonneg)
  ultimately have "\<not> pow2 1024 \<le> \<bar>round_double (of_int n)\<bar>" "0 \<le> round_double (of_int n)"
    using n0 by (simp_all add: round_double_def)
  then show ?thesis by (simp add: float_of_int_def Let_def)
qed

lemma is_prime_overflow:
  assumes "odd n" and "2 ^ 1024 \<le> n"
  shows "is_prime n = Inl OverflowError"
proof -
  have "(2::int) < 2 ^ 1024" by simp
  then have "2 < n" using assms(2) by linarith
  moreover have "n mod 2 \<noteq> 0" using assms(1) by (simp add: odd_iff_mod_2_eq_one)
  ultimately show ?thesis
    by (simp add: is_prime_def math_sqrt_def float_of_int_overflow [OF assms(2)])
qed

lemma is_prime_returns:
  assumes "n < 2 ^ 1023"
  shows "\<exists>v. is_prime n = Inr v"
proof (cases "n < 2 \<or> n = 2 \<or> n mod 2 = 0")
  case True
  then show ?thesis by (auto simp: is_prime_def)
next
  case False
  then have "0 < n" by simp
  then obtain x where "float_of_int n = Inr x" "0 \<le> x"
    using float_of_int_returns [OF _ assms] by blast
  then show ?thesis using False by (simp add: is_prime_def math_sqrt_def)
qed

lemma prime_int_2: "prime_int 2"
  by (auto simp: prime_int_def)

lemma not_prime_int_even: "2 < n \<Longrightarrow> even n \<Longrightarrow> \<not> prime_int n"
proof
  assume "2 < n" "even n" "prime_int n"
  then have "1 < (2::int) \<and> 2 < n \<longrightarrow> \<not> 2 dvd n" by (simp add: prime_int_def)
  then show False using \<open>2 < n\<close> \<open>even n\<close> by simp
qed

lemma is_prime_odd_small:
  assumes "3 \<le> n" and "odd n" and "n < 2 ^ 53"
  shows "is_prime n = Inr (prime_int n)"
proof -
  define r where "r = int_of_float (sqrt_double (of_int n))"
  have n0: "0 < n" using assms(1) by simp
  have nm: "n mod 2 \<noteq> 0" using assms(2) by (simp add: odd_iff_mod_2_eq_one)
  have "math_sqrt n = Inr (sqrt_double (of_int n))"
    using n0 by (simp add: math_sqrt_def float_of_int_exact [OF n0 assms(3)])
  then have "is_prime n = Inr (is_prime_loop n 3 (r + 1))"
    using assms(1) nm by (simp add: is_prime_def r_def)
  moreover have "(\<forall>j. 3 \<le> j \<and> j \<le> r \<and> odd j \<longrightarrow> \<not> j dvd n) \<longleftrightarrow> prime_int n"
  proof (rule odd_prime_by_trial [OF assms(1,2)])
    fix d :: int assume "0 \<le> d" "d * d \<le> n"
    then show "d \<le> r"
      using int_sqrt_double_bounds(1) [OF assms(1,3)] by (simp add: r_def)
  next
    show "r < n"
      using int_sqrt_double_bounds(2) [OF assms(1,3)] by (simp add: r_def)
  qed
  ultimately show ?thesis by (simp add: is_prime_loop_3)
qed

lemma is_prime_small:
  assumes "n < 2 ^ 53"
  shows "is_prime n = Inr (prime_int n)"
proof -
  consider "n < 2" | "n = 2" | "2 < n" "even n" | "3 \<le> n" "odd n" by fastforce
  then show ?thesis
  proof cases
    case 1
    then show ?thesis by (simp add: is_prime_def prime_int_def)
  next
    case 2
    then show ?thesis by (simp add: is_prime_def prime_int_2)
  next
    case 3
    then show ?thesis by (simp add: is_prime_def not_prime_int_even)
  next
    case 4
    then show ?thesis by (rule is_prime_odd_small [OF _ _ assms])
  qed
qed

lemma isqrt_less_self: "3 \<le> n \<Longrightarrow> isqrt n < n"
proof (rule ccontr)
  assume n: "3 \<le> n" and "\<not> isqrt n < n"
  then have a: "n \<le> isqrt n" by simp
  have n0: "0 \<le> n" using n by simp
  have "n * n \<le> isqrt n * isqrt n"
    using a n0 by (intro mult_mono) simp_all
  then have "n * n \<le> n" using isqrt_bounds [OF n0] by linarith
  moreover have "3 * n \<le> n * n" using n by (intro mult_right_mono) simp_all
  ultimately show False using n by linarith
qed

lemma prime_int_odd_iff:
  assumes "3 \<le> n" and "odd n"
  shows "prime_int n \<longleftrightarrow> \<not> (\<exists>d. odd d \<and> 3 \<le> d \<and> d * d \<le> n \<and> d dvd n)"
proof -
  have n0: "0 \<le> n" using assms(1) by simp
  have le: "j \<le> isqrt n \<longleftrightarrow> j * j \<le> n" if "3 \<le> j" for j
  proof
    assume "j \<le> isqrt n"
    then have "j * j \<le> isqrt n * isqrt n" using that by (intro mult_mono) simp_all
    then show "j * j \<le> n" using isqrt_bounds [OF n0] by linarith
  next
    assume "j * j \<le> n"
    then show "j \<le> isqrt n" using that by (intro isqrt_greatest) simp_all
  qed
  have "(\<forall>j. 3 \<le> j \<and> j \<le> isqrt n \<and> odd j \<longrightarrow> \<not> j dvd n) \<longleftrightarrow> prime_int n"
    by (rule odd_prime_by_trial [OF assms]) (simp_all add: isqrt_greatest isqrt_less_self assms(1))
  moreover have "(\<forall>j. 3 \<le> j \<and> j \<le> isqrt n \<and> odd j \<longrightarrow> \<not> j dvd n)
      \<longleftrightarrow> \<not> (\<exists>d. odd d \<and> 3 \<le> d \<and> d * d \<le> n \<and> d dvd n)"
    using le by auto
  ultimately show ?thesis by simp
qed

section \<open>Properties of the Fibonacci set\<close>

lemma fib_seq_pos: "1 \<le> fib_seq k"
  by (induction k rule: fib_seq.induct) simp_all

lemma fib_seq_step: "fib_seq (Suc k) \<le> fib_seq (Suc (Suc k))"
  using fib_seq_pos [of k] by simp

lemma fib_seq_strict: "fib_seq (Suc k) < fib_seq (Suc (Suc k))"
  using fib_seq_pos [of k] by simp

lemma fib_seq_mono: "j \<le> k \<Longrightarrow> fib_seq j \<le> fib_seq k"
proof (induction k)
  case 0
  then show ?case by simp
next
  case (Suc k)
  show ?case
  proof (cases "j = Suc k")
    case True
    then show ?thesis by simp
  next
    case False
    then have "fib_seq j \<le> fib_seq k" using Suc by simp
    moreover have "fib_seq k \<le> fib_seq (Suc k)"
      using fib_seq_step [of "k - 1"] by (cases k) simp_all
    ultimately show ?thesis by linarith
  qed
qed

lemma fibonacci_loop_result:
  "fibonacci_loop m (fib_seq k) (fib_seq (Suc k)) s
     = Some (s \<union> {x. \<exists>j. Suc k \<le> j \<and> x = fib_seq j \<and> x \<le> m})"
proof (induction "nat (m + 1 - fib_seq (Suc k))" arbitrary: k s rule: less_induct)
  case less
  show ?case
  proof (cases "fib_seq (Suc k) \<le> m")
    case False
    have e: "{x. \<exists>j. Suc k \<le> j \<and> x = fib_seq j \<and> x \<le> m} = {}"
    proof -
      have "\<not> fib_seq j \<le> m" if "Suc k \<le> j" for j
        using fib_seq_mono [OF that] False by linarith
      then show ?thesis by auto
    qed
    show ?thesis unfolding e using False by (subst fibonacci_loop.simps) simp
  next
    case True
    have dec: "nat (m + 1 - fib_seq (Suc (Suc k))) < nat (m + 1 - fib_seq (Suc k))"
      using fib_seq_strict [of k] True by linarith
    have ih: "fibonacci_loop m (fib_seq (Suc k)) (fib_seq (Suc (Suc k))) (insert (fib_seq (Suc k)) s)
        = Some (insert (fib_seq (Suc k)) s \<union> {x. \<exists>j. Suc (Suc k) \<le> j \<and> x = fib_seq j \<and> x \<le> m})"
      by (rule less [OF dec])
    have split: "{x. \<exists>j. Suc k \<le> j \<and> x = fib_seq j \<and> x \<le> m}
        = insert (fib_seq (Suc k)) {x. \<exists>j. Suc (Suc k) \<le> j \<and> x = fib_seq j \<and> x \<le> m}"
    proof (intro set_eqI iffI)
      fix x assume "x \<in> {x. \<exists>j. Suc k \<le> j \<and> x = fib_seq j \<and> x \<le> m}"
      then obtain j where j: "Suc k \<le> j" "x = fib_seq j" "x \<le> m" by blast
      show "x \<in> insert (fib_seq (Suc k)) {x. \<exists>j. Suc (Suc k) \<le> j \<and> x = fib_seq j \<and> x \<le> m}"
      proof (cases "j = Suc k")
        case True
        then show ?thesis using j by simp
      next
        case False
        then have "Suc (Suc k) \<le> j" using j(1) by simp
        then show ?thesis using j by blast
      qed
    next
      fix x assume "x \<in> insert (fib_seq (Suc k)) {x. \<exists>j. Suc (Suc k) \<le> j \<and> x = fib_seq j \<and> x \<le> m}"
      then consider "x = fib_seq (Suc k)" | j where "Suc (Suc k) \<le> j" "x = fib_seq j" "x \<le> m"
        by blast
      then show "x \<in> {x. \<exists>j. Suc k \<le> j \<and> x = fib_seq j \<and> x \<le> m}"
      proof cases
        case 1
        then show ?thesis using True by blast
      next
        case 2
        then have "Suc k \<le> j" by simp
        then show ?thesis using 2 by blast
      qed
    qed
    have "fibonacci_loop m (fib_seq k) (fib_seq (Suc k)) s
        = fibonacci_loop m (fib_seq (Suc k)) (fib_seq k + fib_seq (Suc k)) (insert (fib_seq (Suc k)) s)"
      using True by (subst fibonacci_loop.simps) simp
    also have "\<dots> = Some (insert (fib_seq (Suc k)) s \<union> {x. \<exists>j. Suc (Suc k) \<le> j \<and> x = fib_seq j \<and> x \<le> m})"
      using ih by simp
    also have "\<dots> = Some (s \<union> {x. \<exists>j. Suc k \<le> j \<and> x = fib_seq j \<and> x \<le> m})"
      unfolding split by simp
    finally show ?thesis .
  qed
qed

lemma generate_fibonacci_set_eq:
  "generate_fibonacci_set max_value = Some (fibonacci_numbers_upto max_value)"
proof (cases "max_value < 1")
  case True
  have "\<not> fib_seq k \<le> max_value" for k
    using fib_seq_pos [of k] True by linarith
  then have "fibonacci_numbers_upto max_value = {}"
    by (auto simp: fibonacci_numbers_upto_def)
  then show ?thesis using True by (simp add: generate_fibonacci_set_def)
next
  case False
  have "fibonacci_loop max_value (fib_seq 0) (fib_seq (Suc 0)) {1}
      = Some ({1} \<union> {x. \<exists>j. Suc 0 \<le> j \<and> x = fib_seq j \<and> x \<le> max_value})"
    by (rule fibonacci_loop_result)
  moreover have "{1} \<union> {x. \<exists>j. Suc 0 \<le> j \<and> x = fib_seq j \<and> x \<le> max_value}
      = fibonacci_numbers_upto max_value"
  proof (intro set_eqI iffI)
    fix x assume "x \<in> {1} \<union> {x. \<exists>j. Suc 0 \<le> j \<and> x = fib_seq j \<and> x \<le> max_value}"
    then consider "x = 1" | j where "x = fib_seq j" "x \<le> max_value" by blast
    then show "x \<in> fibonacci_numbers_upto max_value"
    proof cases
      case 1
      then have "x = fib_seq 0 \<and> x \<le> max_value" using False by simp
      then show ?thesis unfolding fibonacci_numbers_upto_def by blast
    next
      case 2
      then show ?thesis unfolding fibonacci_numbers_upto_def by blast
    qed
  next
    fix x assume "x \<in> fibonacci_numbers_upto max_value"
    then obtain k where k: "x = fib_seq k" "x \<le> max_value"
      unfolding fibonacci_numbers_upto_def by blast
    show "x \<in> {1} \<union> {x. \<exists>j. Suc 0 \<le> j \<and> x = fib_seq j \<and> x \<le> max_value}"
    proof (cases "k = 0")
      case True
      then show ?thesis using k by simp
    next
      case False
      then have "Suc 0 \<le> k" by simp
      then show ?thesis using k by blast
    qed
  qed
  ultimately show ?thesis using False by (simp add: generate_fibonacci_set_def)
qed

lemma generate_fibonacci_set_0: "generate_fibonacci_set 0 = Some {}"
  by (simp add: generate_fibonacci_set_def)

lemma generate_fibonacci_set_1: "generate_fibonacci_set 1 = Some {1}"
  by (simp add: generate_fibonacci_set_def fibonacci_loop.simps)

lemma generate_fibonacci_set_10: "generate_fibonacci_set 10 = Some {1, 2, 3, 5, 8}"
  by (simp add: generate_fibonacci_set_def fibonacci_loop.simps insert_commute)

section \<open>Properties of the evaluator\<close>

lemma block_matches_Inr:
  assumes "block_matches n F b = Inr m"
  shows "m = rule_matches n F b"
proof (cases "block_type b")
  case DIVISOR
  then show ?thesis using assms
    by (auto simp: block_matches_def rule_matches_def getitem_def py_mod_def
        split: option.splits py_value.splits if_splits sum.splits)
next
  case PRIME
  then show ?thesis using assms
    by (auto simp: block_matches_def rule_matches_def)
next
  case FIBONACCI
  then show ?thesis using assms
    by (auto simp: block_matches_def rule_matches_def)
next
  case RANGE
  show ?thesis
  proof (cases "properties b ''start''")
    case None
    then show ?thesis using assms RANGE by (simp add: block_matches_def getitem_def)
  next
    case (Some lo)
    show ?thesis
    proof (cases lo)
      case (PyStr s)
      then show ?thesis using assms RANGE Some
        by (simp add: block_matches_def getitem_def py_value_le_int_def)
    next
      case (PyInt a)
      show ?thesis
      proof (cases "a \<le> n")
        case False
        then have "\<not> m" using assms RANGE Some PyInt
          by (simp add: block_matches_def getitem_def py_value_le_int_def)
        moreover have "\<not> rule_matches n F b" using False RANGE Some PyInt
          by (simp add: rule_matches_def split: option.splits py_value.splits)
        ultimately show ?thesis by simp
      next
        case True
        then show ?thesis using assms RANGE Some PyInt
          by (auto simp: block_matches_def rule_matches_def getitem_def py_value_le_int_def
              py_int_le_value_def split: option.splits py_value.splits)
      qed
    qed
  qed
qed

lemma block_matches_returns:
  assumes "well_formed_rule b" and "block_type b = PRIME \<longrightarrow> n < float_limit"
  shows "\<exists>m. block_matches n F b = Inr m"
proof (cases "block_type b")
  case DIVISOR
  then show ?thesis using assms(1)
    by (auto simp: block_matches_def well_formed_rule_def getitem_def py_mod_def
        split: option.splits py_value.splits)
next
  case PRIME
  then show ?thesis using assms(2) is_prime_returns [of n]
    by (simp add: block_matches_def float_limit_def)
next
  case FIBONACCI
  then show ?thesis by (simp add: block_matches_def)
next
  case RANGE
  then show ?thesis using assms(1)
    by (auto simp: block_matches_def well_formed_rule_def getitem_def py_value_le_int_def
        py_int_le_value_def split: option.splits py_value.splits)
qed

lemma process_blocks_Inr:
  "process_blocks n F bs parts ms = Inr (parts', ms') \<Longrightarrow>
     ms' = ms @ filter (rule_matches n F) bs
     \<and> parts' = parts @ map raw_word (filter (rule_matches n F) bs)"
proof (induction bs arbitrary: parts ms)
  case Nil
  then show ?case by simp
next
  case (Cons b bs)
  from Cons.prems obtain m where m: "block_matches n F b = Inr m"
    by (auto split: sum.splits)
  have rm: "rule_matches n F b = m" using block_matches_Inr [OF m] by simp
  show ?case
  proof (cases m)
    case False
    then have "process_blocks n F bs parts ms = Inr (parts', ms')"
      using Cons.prems m by simp
    from Cons.IH [OF this] show ?thesis using rm False by simp
  next
    case True
    then obtain w where w: "getitem (properties b) ''word'' = Inr w"
      and rest: "process_blocks n F bs (parts @ [w]) (ms @ [b]) = Inr (parts', ms')"
      using Cons.prems m by (auto split: sum.splits)
    have "raw_word b = w"
      using w by (auto simp: raw_word_def dict_get_def getitem_def split: option.splits)
    with Cons.IH [OF rest] show ?thesis using rm True by simp
  qed
qed

lemma process_blocks_returns:
  "evaluable n bs \<Longrightarrow> \<exists>parts' ms'. process_blocks n F bs parts ms = Inr (parts', ms')"
proof (induction bs arbitrary: parts ms)
  case Nil
  then show ?case by simp
next
  case (Cons b bs)
  have b: "well_formed_rule b" "block_type b = PRIME \<longrightarrow> n < float_limit"
    and bs: "evaluable n bs"
    using Cons.prems by (simp_all add: evaluable_def)
  obtain m where m: "block_matches n F b = Inr m"
    using block_matches_returns [OF b] by blast
  have "\<exists>w. getitem (properties b) ''word'' = Inr w"
    using b(1)
    by (auto simp: well_formed_rule_def getitem_def split: option.splits py_value.splits)
  then obtain w where w: "getitem (properties b) ''word'' = Inr w" by blast
  have ih: "\<exists>parts' ms'. process_blocks n F bs p q = Inr (parts', ms')" for p q
    using Cons.IH [OF bs] .
  show ?case
    using m w ih [of parts ms] ih [of "parts @ [w]" "ms @ [b]"] by (cases m) simp_all
qed

lemma py_join_raw_word:
  "py_join (map raw_word bs) = Inr t \<Longrightarrow> t = concat (map word_of bs)"
proof (induction bs arbitrary: t)
  case Nil
  then show ?case by simp
next
  case (Cons b bs)
  then obtain w u where w: "raw_word b = PyStr w" and u: "py_join (map raw_word bs) = Inr u"
    and t: "t = w @ u"
    by (cases "raw_word b") (auto split: sum.splits)
  have "word_of b = w"
    using w by (auto simp: raw_word_def word_of_def dict_get_def split: option.splits py_value.splits)
  then show ?case using Cons.IH [OF u] t by simp
qed

lemma py_join_returns:
  "\<forall>b \<in> set bs. well_formed_rule b \<Longrightarrow> \<exists>t. py_join (map raw_word bs) = Inr t"
proof (induction bs)
  case Nil
  then show ?case by simp
next
  case (Cons b bs)
  then obtain u where u: "py_join (map raw_word bs) = Inr u" by auto
  have "\<exists>w. raw_word b = PyStr w"
    using Cons.prems
    by (auto simp: well_formed_rule_def raw_word_def dict_get_def split: option.splits py_value.splits)
  then show ?case using u by auto
qed

lemma get_result_type_classify:
  "get_result_type (map raw_word ms) ms = classify ms"
proof (cases ms)
  case Nil
  then show ?thesis by (simp add: get_result_type_def classify_def)
next
  case (Cons b rest)
  show ?thesis
  proof (cases rest)
    case Nil
    then show ?thesis using Cons
      by (auto simp: get_result_type_def classify_def dict_get_def Let_def
          split: BlockType.splits option.splits)
  next
    case (Cons c rest')
    have "(filter (divisor_with_word w) ms \<noteq> []) = (\<exists>x \<in> set ms. divisor_with_word w x)" for w
      by (simp add: filter_empty_conv)
    then show ?thesis using \<open>ms = b # rest\<close> Cons
      by (simp add: get_result_type_def classify_def Let_def divisor_with_word_def [abs_def])
  qed
qed

lemma process_number_Inr:
  assumes "process_number n blocks fs = Inr r"
  defines "F \<equiv> (case fs of None \<Rightarrow> {} | Some s \<Rightarrow> s)"
  defines "ms \<equiv> filter (rule_matches n F) (sort_key order blocks)"
  shows "number r = n" and "matching_blocks r = ms"
    and "text r = (if ms = [] then py_str n else concat (map word_of ms))"
    and "result_type r = classify ms"
proof -
  obtain parts' ms' where pb: "process_blocks n F (sort_key order blocks) [] [] = Inr (parts', ms')"
    using assms(1) unfolding process_number_def Let_def F_def
    by (auto split: sum.splits)
  have ms': "ms' = ms" and parts': "parts' = map raw_word ms"
    using process_blocks_Inr [OF pb] by (simp_all add: ms_def)
  obtain t where t: "(if parts' \<noteq> [] then py_join parts' else Inr (py_str n)) = Inr t"
    and r: "r = \<lparr>number = n, text = t, result_type = get_result_type parts' ms',
                 matching_blocks = ms'\<rparr>"
    using assms(1) pb unfolding process_number_def Let_def F_def [symmetric]
    by (auto split: sum.splits)
  show "number r = n" by (simp add: r)
  show "matching_blocks r = ms" by (simp add: r ms')
  show "result_type r = classify ms"
    by (simp add: r ms' parts' get_result_type_classify)
  show "text r = (if ms = [] then py_str n else concat (map word_of ms))"
  proof (cases "ms = []")
    case True
    then show ?thesis using t by (simp add: r parts')
  next
    case False
    then have "py_join (map raw_word ms) = Inr t" using t by (simp add: parts')
    then show ?thesis using False py_join_raw_word by (simp add: r)
  qed
qed

lemma evaluable_sort_key: "evaluable n (sort_key order blocks) = evaluable n blocks"
  by (simp add: evaluable_def)

lemma process_number_returns:
  assumes "evaluable n blocks"
  shows "\<exists>r. process_number n blocks fs = Inr r"
proof -
  define F where "F = (case fs of None \<Rightarrow> {} | Some s \<Rightarrow> s)"
  have ev: "evaluable n (sort_key order blocks)"
    using assms by (simp add: evaluable_sort_key)
  obtain parts' ms' where pb: "process_blocks n F (sort_key order blocks) [] [] = Inr (parts', ms')"
    using process_blocks_returns [OF ev] by blast
  have ms': "ms' = filter (rule_matches n F) (sort_key order blocks)"
    and parts': "parts' = map raw_word ms'"
    using process_blocks_Inr [OF pb] by simp_all
  have "\<forall>b \<in> set ms'. well_formed_rule b"
    using assms by (auto simp: ms' evaluable_def)
  then obtain t where "py_join parts' = Inr t"
    using py_join_returns unfolding parts' by blast
  then show ?thesis
    using pb unfolding process_number_def Let_def F_def [symmetric] by simp
qed

lemma digit_value_digit: "d < 10 \<Longrightarrow> digit_value (''0123456789'' ! d) = d"
proof -
  assume "d < 10"
  then consider "d = 0" | "d = 1" | "d = 2" | "d = 3" | "d = 4" | "d = 5" | "d = 6" | "d = 7"
    | "d = 8" | "d = 9" by atomize_elim arith
  then show ?thesis by cases (simp_all add: digit_value_def)
qed

lemma decimal_value_snoc:
  "decimal_value (s @ [c]) = 10 * decimal_value s + digit_value c"
  by (simp add: decimal_value_def)

lemma decimal_value_str_nat: "decimal_value (str_nat n) = n"
proof (induction n rule: str_nat.induct)
  case (1 n)
  show ?case
  proof (cases "n < 10")
    case True
    then have "str_nat n = [''0123456789'' ! n]" by (subst str_nat.simps) simp
    then show ?thesis using True digit_value_digit [of n] by (simp add: decimal_value_def)
  next
    case False
    then have "str_nat n = str_nat (n div 10) @ [''0123456789'' ! (n mod 10)]"
      by (subst str_nat.simps) simp
    then show ?thesis
      using "1.IH" [OF False] digit_value_digit [of "n mod 10"]
      by (simp add: decimal_value_snoc)
  qed
qed

lemma py_str_decimal:
  "py_str n = (if n < 0 then CHR ''-'' # str_nat (nat (- n)) else str_nat (nat n))"
  "decimal_value (str_nat (nat \<bar>n\<bar>)) = nat \<bar>n\<bar>"
  by (simp_all add: py_str_def decimal_value_str_nat)

lemma stable_sorted_unique:
  assumes "sorted (map f ys)"
    and "\<And>k. filter (\<lambda>b. f b = k) ys = filter (\<lambda>b. f b = k) xs"
  shows "ys = sort_key f xs"
proof -
  have "count (mset ys) x = count (mset xs) x" for x
  proof -
    have "count (mset ys) x = count (mset (filter (\<lambda>b. f b = f x) ys)) x" by simp
    also have "\<dots> = count (mset (filter (\<lambda>b. f b = f x) xs)) x" by (simp only: assms(2))
    also have "\<dots> = count (mset xs) x" by simp
    finally show ?thesis .
  qed
  then have m: "mset ys = mset xs" by (rule multiset_eqI)
  have "filter (\<lambda>x. f k = f x) ys = filter (\<lambda>x. f k = f x) xs" for k
    using assms(2) [of "f k"] by (simp add: eq_commute)
  then have "sort_key f xs = ys"
    using m assms(1) by (intro properties_for_sort_key) simp_all
  then show ?thesis by simp
qed

lemma matched_stable:
  "filter (\<lambda>b. f b = k) (filter P (sort_key f blocks)) = filter (\<lambda>b. f b = k) (filter P blocks)"
proof -
  have "filter (\<lambda>b. f b = k) (filter P (sort_key f blocks))
      = filter P (filter (\<lambda>b. f b = k) (sort_key f blocks))"
    by (simp add: conj_commute)
  also have "\<dots> = filter P (filter (\<lambda>b. f b = k) blocks)"
    by (simp only: sort_key_stable)
  also have "\<dots> = filter (\<lambda>b. f b = k) (filter P blocks)"
    by (simp add: conj_commute)
  finally show ?thesis .
qed

lemma matched_sorted: "sorted (map f (filter P (sort_key f blocks)))"
  by (simp add: sorted_filter)

lemma filter_sort_key: "filter P (sort_key f blocks) = sort_key f (filter P blocks)"
  by (rule stable_sorted_unique [OF matched_sorted matched_stable])

lemma get_result_type_classify_general:
  assumes "(parts = []) = (ms = [])"
  shows "get_result_type parts ms = classify ms"
proof -
  have "get_result_type parts ms = get_result_type (map raw_word ms) ms"
    using assms by (simp add: get_result_type_def)
  then show ?thesis by (simp add: get_result_type_classify)
qed

lemma classify_rename:
  "classify (map (\<lambda>b. b\<lparr>name := f b, id' := g b\<rparr>) ms) = classify ms"
proof (cases ms)
  case Nil
  then show ?thesis by (simp add: classify_def)
next
  case (Cons b rest)
  show ?thesis
  proof (cases rest)
    case Nil
    then show ?thesis using Cons by (simp add: classify_def)
  next
    case (Cons c rest')
    have "(\<exists>x \<in> set (map (\<lambda>b. b\<lparr>name := f b, id' := g b\<rparr>) ms). divisor_with_word w x)
        = (\<exists>x \<in> set ms. divisor_with_word w x)" for w
      by (auto simp: divisor_with_word_def)
    then show ?thesis using \<open>ms = b # rest\<close> Cons
      by (simp add: classify_def del: set_map)
  qed
qed

section \<open>Properties of the progress percentage\<close>

lemma round_double_nonneg: "0 \<le> x \<Longrightarrow> 0 \<le> round_double x"
  using round_double_pos_nonneg [of x] by (simp add: round_double_def)

lemma round_double_le_int:
  assumes "0 \<le> x" and "x \<le> of_int k" and "k < 2 ^ 53"
  shows "round_double x \<le> of_int k"
proof (cases "x = 0")
  case True
  then show ?thesis using assms by (simp add: round_double_def)
next
  case False
  then have x: "0 < x" using assms(1) by simp
  have "(of_int k :: rat) < of_int (2 ^ 53)"
    using assms(3) by (simp only: of_int_less_iff)
  then have "x < pow2 53" using assms(2) by (simp add: pow2_nat)
  then have "floor_log2 x < 53" using x by (intro floor_log2_less)
  then have "max (floor_log2 x - 52) (- 1074) \<le> 0" by simp
  moreover have "x \<le> of_int k * pow2 0" using assms(2) by simp
  ultimately have "round_double_pos x \<le> of_int k * pow2 0"
    by (rule round_double_pos_le [rotated])
  then show ?thesis using x by (simp add: round_double_def)
qed

lemma round_double_of_int:
  assumes "0 \<le> k" and "k < 2 ^ 53"
  shows "round_double (of_int k) = of_int k"
  using assms round_double_int_exact [of k] by (cases "k = 0") (simp_all add: round_double_def)

lemma round_double_ge_min:
  assumes "pow2 (- 1074) \<le> x"
  shows "pow2 (- 1074) \<le> round_double x"
proof -
  have x: "0 < x" using assms pow2_pos [of "- 1074"] by linarith
  have "pow2 (- 1074) \<le> round_double_pos x"
    using assms by (rule round_double_pos_pow2_ge) simp
  then show ?thesis using x by (simp add: round_double_def)
qed

lemma round_double_underflow:
  assumes "0 < x" and "x < pow2 (- 1075)"
  shows "round_double x = 0"
proof -
  have "floor_log2 x < - 1075" using assms by (rule floor_log2_less)
  then have p: "max (floor_log2 x - 52) (- 1074) = - 1074" by simp
  have h: "pow2 (- 1075) = pow2 (- 1074) * (1 / 2)"
    using pow2_add [of "- 1074" "- 1"] by (simp add: pow2_def)
  define y where "y = x / pow2 (- 1074)"
  have y: "0 < y" "y < 1 / 2"
    using assms h by (simp_all add: y_def field_simps)
  then have "\<lfloor>y\<rfloor> = 0" by (simp add: floor_eq_iff)
  then have "round_half_even y = 0" using y by (simp add: round_half_even_def)
  then have "round_double_pos x = 0"
    by (simp add: round_double_pos_def p y_def)
  then show ?thesis using assms(1) by (simp add: round_double_def)
qed

lemma progress_quotient:
  assumes "0 < k" and "k \<le> tot"
  shows "0 < (of_int k / of_int tot :: rat)" and "(of_int k / of_int tot :: rat) \<le> 1"
  using assms by simp_all

lemma int_truediv_fraction:
  assumes "0 < k" and "k \<le> tot"
  shows "int_truediv k tot = Inr (round_double (of_int k / of_int tot))"
proof -
  define x :: rat where "x = of_int k / of_int tot"
  have x: "0 < x" "x \<le> 1" using progress_quotient [OF assms] by (simp_all add: x_def)
  have "round_double x \<le> of_int 1"
    using x by (intro round_double_le_int) simp_all
  moreover have "0 \<le> round_double x" using x by (intro round_double_nonneg) simp
  moreover have "(1::rat) < pow2 1024" using pow2_strict_mono [of 0 1024] by simp
  ultimately have "\<not> pow2 1024 \<le> \<bar>round_double x\<bar>" by simp
  moreover have "tot \<noteq> 0" using assms by simp
  ultimately show ?thesis by (simp add: int_truediv_def x_def Let_def)
qed

lemma progress_value_eq:
  assumes "0 \<le> i" and "i < tot"
  shows "progress_value i tot = Inr (progress_of (i + 1) tot)"
  using assms int_truediv_fraction [of "i + 1" tot]
  by (simp add: progress_value_def progress_of_def)

lemma progress_of_range:
  assumes "0 < k" and "k \<le> tot"
  shows "0 \<le> progress_of k tot" and "progress_of k tot \<le> 100"
proof -
  define q where "q = round_double (of_int k / of_int tot)"
  have x: "0 < (of_int k / of_int tot :: rat)" "(of_int k / of_int tot :: rat) \<le> 1"
    using progress_quotient [OF assms] by simp_all
  have q0: "0 \<le> q" unfolding q_def using x by (intro round_double_nonneg) simp
  have "q \<le> of_int 1" unfolding q_def using x by (intro round_double_le_int) simp_all
  then have q1: "q * 100 \<le> of_int 100" by simp
  have "0 \<le> q * 100" using q0 by simp
  then show "0 \<le> progress_of k tot"
    unfolding progress_of_def float_mul_def q_def [symmetric] by (rule round_double_nonneg)
  have "round_double (q * 100) \<le> of_int 100"
    using q0 q1 by (intro round_double_le_int) simp_all
  then show "progress_of k tot \<le> 100"
    by (simp add: progress_of_def float_mul_def q_def)
qed

lemma progress_of_pos:
  assumes "0 < k" and "k \<le> tot" and "tot \<le> 2 ^ 1074"
  shows "0 < progress_of k tot"
proof -
  define q where "q = round_double (of_int k / of_int tot)"
  have t: "(0::rat) < of_int tot" using assms by simp
  have "(of_int tot :: rat) \<le> of_int (2 ^ 1074)"
    using assms(3) by (simp only: of_int_le_iff)
  then have "(of_int tot :: rat) \<le> 2 ^ 1074" by simp
  then have "1 / 2 ^ 1074 \<le> 1 / (of_int tot :: rat)"
    using t by (intro divide_left_mono) simp_all
  also have "\<dots> \<le> of_int k / of_int tot"
    using assms(1) t by (intro divide_right_mono) simp_all
  finally have "pow2 (- 1074) \<le> of_int k / of_int tot" by (simp add: pow2_def)
  then have q: "pow2 (- 1074) \<le> q" unfolding q_def by (rule round_double_ge_min)
  have "0 \<le> q" using q pow2_nonneg [of "- 1074"] by linarith
  then have "pow2 (- 1074) * 1 \<le> q * 100"
    using q by (intro mult_mono) simp_all
  then have "pow2 (- 1074) \<le> round_double (q * 100)"
    by (intro round_double_ge_min) simp
  then have "0 < round_double (q * 100)"
    using pow2_pos [of "- 1074"] by linarith
  then show ?thesis
    by (simp add: progress_of_def float_mul_def q_def)
qed

lemma progress_of_total:
  assumes "0 < tot"
  shows "progress_of tot tot = 100"
proof -
  have "(of_int tot / of_int tot :: rat) = of_int 1" using assms by simp
  then have "round_double (of_int tot / of_int tot) = 1"
    using round_double_of_int [of 1] by simp
  moreover have "round_double (of_int 100) = of_int 100"
    by (rule round_double_of_int) simp_all
  ultimately show ?thesis by (simp add: progress_of_def float_mul_def)
qed

lemma progress_of_underflow:
  assumes "0 < k" and "k \<le> 64" and "2 ^ 1082 \<le> tot"
  shows "progress_of k tot = 0"
proof -
  have "(0::int) < 2 ^ 1082" by simp
  then have "0 < tot" using assms(3) by linarith
  then have t: "(0::rat) < of_int tot" by simp
  have "(of_int (2 ^ 1082) :: rat) \<le> of_int tot"
    using assms(3) by (simp only: of_int_le_iff)
  then have t2: "(2::rat) ^ 1082 \<le> of_int tot" by simp
  have "(of_int k :: rat) \<le> of_int 64" using assms(2) by (simp only: of_int_le_iff)
  then have "(of_int k / of_int tot :: rat) \<le> 64 / of_int tot"
    using t by (intro divide_right_mono) simp_all
  also have "\<dots> \<le> 64 / 2 ^ 1082"
    using t2 by (intro divide_left_mono) simp_all
  also have "\<dots> = 1 / 2 ^ 1076"
  proof -
    have "(2::rat) ^ 1082 = 2 ^ 6 * 2 ^ 1076" by (simp flip: power_add)
    then show ?thesis by simp
  qed
  also have "\<dots> < 1 / 2 ^ 1075"
    by (intro divide_strict_left_mono power_strict_increasing) simp_all
  finally have "(of_int k / of_int tot :: rat) < pow2 (- 1075)" by (simp add: pow2_def)
  moreover have "0 < (of_int k / of_int tot :: rat)" using assms(1) t by simp
  ultimately have "round_double (of_int k / of_int tot) = 0"
    by (intro round_double_underflow)
  then show ?thesis by (simp add: progress_of_def float_mul_def round_double_def)
qed

section \<open>Properties of the batch driver\<close>

lemma batch_loop_Inr:
  "batch_loop cb tot blocks F i ns results calls = (Inr rs, cs) \<Longrightarrow>
     \<exists>new. rs = results @ new
       \<and> list_all2 (\<lambda>n r. process_number n blocks (Some F) = Inr r) ns new"
proof (induction ns arbitrary: i results calls)
  case Nil
  then show ?case by simp
next
  case (Cons n ns)
  from Cons.prems obtain r where r: "process_number n blocks (Some F) = Inr r"
    by (auto split: sum.splits)
  from Cons.prems r obtain calls' where
    "batch_loop cb tot blocks F (i + 1) ns (results @ [r]) calls' = (Inr rs, cs)"
    by (auto split: sum.splits if_splits)
  from Cons.IH [OF this] obtain new where
    "rs = (results @ [r]) @ new"
    "list_all2 (\<lambda>n r. process_number n blocks (Some F) = Inr r) ns new" by blast
  then have "rs = results @ (r # new)
      \<and> list_all2 (\<lambda>n r. process_number n blocks (Some F) = Inr r) (n # ns) (r # new)"
    using r by simp
  then show ?case by blast
qed

lemma batch_loop_returns:
  assumes "\<forall>n \<in> set ns. \<exists>r. process_number n blocks (Some F) = Inr r"
    and "0 \<le> i" and "i + int (length ns) \<le> tot"
  shows "\<exists>rs cs. batch_loop cb tot blocks F i ns results calls = (Inr rs, cs)"
  using assms
proof (induction ns arbitrary: i results calls)
  case Nil
  then show ?case by simp
next
  case (Cons n ns)
  then obtain r where r: "process_number n blocks (Some F) = Inr r" by auto
  have i: "0 \<le> i" "i < tot" using Cons.prems by simp_all
  have ih: "\<exists>rs cs. batch_loop cb tot blocks F (i + 1) ns res cl = (Inr rs, cs)" for res cl
    using Cons.prems by (intro Cons.IH) simp_all
  show ?case
  proof (cases "cb \<and> ((i + 1) mod 50 = 0 \<or> i = tot - 1)")
    case True
    then show ?thesis
      using r progress_value_eq [OF i] ih [of "results @ [r]" "calls @ [progress_of (i + 1) tot]"]
      by simp
  next
    case False
    then show ?thesis
      using r ih [of "results @ [r]" calls] by auto
  qed
qed

text \<open>The reports that a complete run of the loop adds.\<close>

lemma batch_loop_calls:
  assumes "batch_loop True tot blocks F i ns results calls = (Inr rs, cs)"
    and "0 \<le> i" and "i + int (length ns) \<le> tot"
  shows "cs = calls @ map (\<lambda>k. progress_of k tot)
                 (filter (\<lambda>k. k mod 50 = 0 \<or> k = tot) [i + 1..i + int (length ns)])"
  using assms
proof (induction ns arbitrary: i results calls)
  case Nil
  then show ?case by simp
next
  case (Cons n ns)
  from Cons.prems(1) obtain r where r: "process_number n blocks (Some F) = Inr r"
    by (auto split: sum.splits)
  have i: "0 \<le> i" "i < tot" using Cons.prems by simp_all
  have pv: "progress_value i tot = Inr (progress_of (i + 1) tot)"
    by (rule progress_value_eq [OF i])
  have up: "[i + 1..i + int (length (n # ns))] = (i + 1) # [i + 1 + 1..i + 1 + int (length ns)]"
    by (subst upto_rec1) (simp_all add: add.assoc)
  have cond: "((i + 1) mod 50 = 0 \<or> i = tot - 1) = ((i + 1) mod 50 = 0 \<or> i + 1 = tot)"
    by auto
  show ?case
  proof (cases "(i + 1) mod 50 = 0 \<or> i + 1 = tot")
    case True
    then have "batch_loop True tot blocks F (i + 1) ns (results @ [r])
        (calls @ [progress_of (i + 1) tot]) = (Inr rs, cs)"
      using Cons.prems(1) r pv cond by simp
    then have "cs = (calls @ [progress_of (i + 1) tot]) @ map (\<lambda>k. progress_of k tot)
        (filter (\<lambda>k. k mod 50 = 0 \<or> k = tot) [i + 1 + 1..i + 1 + int (length ns)])"
      using Cons.prems(2,3) by (intro Cons.IH) simp_all
    then show ?thesis unfolding up using True by simp
  next
    case False
    then have "batch_loop True tot blocks F (i + 1) ns (results @ [r]) calls = (Inr rs, cs)"
      using Cons.prems(1) r cond by simp
    then have "cs = calls @ map (\<lambda>k. progress_of k tot)
        (filter (\<lambda>k. k mod 50 = 0 \<or> k = tot) [i + 1 + 1..i + 1 + int (length ns)])"
      using Cons.prems(2,3) by (intro Cons.IH) simp_all
    then show ?thesis unfolding up using False by simp
  qed
qed

lemma batch_loop_no_callback:
  "snd (batch_loop False tot blocks F i ns results calls) = calls"
  by (induction ns arbitrary: i results) (auto split: sum.splits)

text \<open>No exception of the loop is a \<^verbatim>\<open>ValueError\<close>.\<close>

lemma float_of_int_nonneg:
  assumes "0 < n" and "float_of_int n = Inr x"
  shows "0 \<le> x"
proof -
  have "0 \<le> round_double (of_int n)"
    using assms(1) by (intro round_double_nonneg) simp
  then show ?thesis using assms(2) by (auto simp: float_of_int_def Let_def split: if_splits)
qed

lemma float_of_int_error: "float_of_int n = Inl e \<Longrightarrow> e = OverflowError"
  by (auto simp: float_of_int_def Let_def split: if_splits)

lemma is_prime_error: "is_prime n = Inl e \<Longrightarrow> e = OverflowError"
proof -
  assume e: "is_prime n = Inl e"
  then have n: "0 < n" by (auto simp: is_prime_def split: if_splits)
  show ?thesis
  proof (cases "float_of_int n")
    case (Inl e')
    then show ?thesis using e float_of_int_error [OF Inl]
      by (auto simp: is_prime_def math_sqrt_def split: if_splits)
  next
    case (Inr x)
    then have "0 \<le> x" using float_of_int_nonneg [OF n] by simp
    then show ?thesis using e Inr
      by (auto simp: is_prime_def math_sqrt_def split: if_splits)
  qed
qed

lemma block_matches_error: "block_matches n F b = Inl (ValueError msg) \<Longrightarrow> False"
  using is_prime_error [of n "ValueError msg"]
  by (cases "block_type b")
    (auto simp: block_matches_def getitem_def py_mod_def py_value_le_int_def py_int_le_value_def
      split: option.splits py_value.splits if_splits sum.splits)

lemma process_blocks_error:
  "process_blocks n F bs parts ms = Inl (ValueError msg) \<Longrightarrow> False"
proof (induction bs arbitrary: parts ms)
  case Nil
  then show ?case by simp
next
  case (Cons b bs)
  show ?case
  proof (cases "block_matches n F b")
    case (Inl e)
    then show ?thesis using Cons.prems block_matches_error [of n F b msg] by simp
  next
    case (Inr m)
    then show ?thesis using Cons.prems Cons.IH
      by (auto simp: getitem_def split: if_splits option.splits)
  qed
qed

lemma py_join_error: "py_join vs = Inl e \<Longrightarrow> e = TypeError"
  by (induction vs rule: py_join.induct) (auto split: sum.splits)

lemma process_number_error: "process_number n blocks fs = Inl (ValueError msg) \<Longrightarrow> False"
  using process_blocks_error [of n _ "sort_key order blocks" "[]" "[]" msg]
    py_join_error [of _ "ValueError msg"]
  by (auto simp: process_number_def Let_def split: sum.splits if_splits prod.splits)

lemma progress_value_error: "progress_value i tot = Inl (ValueError msg) \<Longrightarrow> False"
  by (auto simp: progress_value_def int_truediv_def Let_def split: if_splits sum.splits)

lemma batch_loop_error:
  "fst (batch_loop cb tot blocks F i ns results calls) = Inl (ValueError msg) \<Longrightarrow> False"
proof (induction ns arbitrary: i results calls)
  case Nil
  then show ?case by simp
next
  case (Cons n ns)
  show ?case
  proof (cases "process_number n blocks (Some F)")
    case (Inl e)
    then show ?thesis using Cons.prems process_number_error [of n blocks "Some F" msg] by simp
  next
    case (Inr r)
    show ?thesis
    proof (cases "progress_value i tot")
      case (Inl e)
      then show ?thesis
        using Cons.prems Inr progress_value_error [of i tot msg] Cons.IH
        by (auto split: if_splits)
    next
      case pr: (Inr p)
      then show ?thesis using Cons.prems Inr Cons.IH by (auto split: if_splits)
    qed
  qed
qed

lemma generate_fizzbuzz_batch_valid:
  assumes "1 \<le> start" and "start < end'" and "blocks \<noteq> []"
  shows "generate_fizzbuzz_batch start end' blocks cb
    = Some (batch_loop cb (end' - start + 1) blocks (batch_fibonacci_set end' blocks) 0
              [start..end'] [] [])"
  using assms
  by (simp add: generate_fizzbuzz_batch_def batch_fibonacci_set_def generate_fibonacci_set_eq)

lemma evaluable_mono: "evaluable m blocks \<Longrightarrow> n \<le> m \<Longrightarrow> evaluable n blocks"
  by (auto simp: evaluable_def)

lemma batch_results:
  assumes "list_all2 (\<lambda>n r. process_number n blocks fs = Inr r) [start..end'] results"
    and "start \<le> end'"
  shows "length results = nat (end' - start + 1)"
    and "\<forall>i < length results. process_number (start + int i) blocks fs = Inr (results ! i)"
    and "\<forall>i < length results. number (results ! i) = start + int i"
    and "number (results ! 0) = start"
    and "number (last results) = end'"
proof -
  show len: "length results = nat (end' - start + 1)"
    using list_all2_lengthD [OF assms(1)] by simp
  show nth: "\<forall>i < length results. process_number (start + int i) blocks fs = Inr (results ! i)"
  proof (intro allI impI)
    fix i assume i: "i < length results"
    then show "process_number (start + int i) blocks fs = Inr (results ! i)"
      using assms(1) by (simp add: list_all2_conv_all_nth)
  qed
  show num: "\<forall>i < length results. number (results ! i) = start + int i"
    using nth process_number_Inr(1) by blast
  have pos: "0 < length results" using len assms(2) by simp
  show "number (results ! 0) = start" using num pos by simp
  have "results \<noteq> []" using pos by simp
  then have "last results = results ! (length results - 1)" by (rule last_conv_nth)
  then have "number (last results) = start + int (length results - 1)"
    using num pos by simp
  then show "number (last results) = end'" using len assms(2) by simp
qed

lemma expected_calls_last:
  assumes "1 \<le> tot"
  shows "expected_calls tot \<noteq> []" and "last (expected_calls tot) = 100"
proof -
  have "[1..tot] = [1..tot - 1] @ [tot]"
    using assms by (subst upto_rec2) simp_all
  then have "expected_calls tot
      = map (\<lambda>k. progress_of k tot) (filter (\<lambda>k. k mod 50 = 0 \<or> k = tot) [1..tot - 1])
        @ [progress_of tot tot]"
    by (simp add: expected_calls_def)
  then show "expected_calls tot \<noteq> []" and "last (expected_calls tot) = 100"
    using assms progress_of_total [of tot] by simp_all
qed

lemma expected_calls_small:
  assumes "1 \<le> tot" and "tot < 50"
  shows "expected_calls tot = [100]"
proof -
  have "[1..tot] = [1..tot - 1] @ [tot]"
    using assms by (subst upto_rec2) simp_all
  moreover have "filter (\<lambda>k. k mod 50 = 0 \<or> k = tot) [1..tot - 1] = []"
    using assms by (auto simp: filter_empty_conv)
  ultimately have "expected_calls tot = [progress_of tot tot]"
    by (simp add: expected_calls_def)
  then show ?thesis using assms progress_of_total [of tot] by simp
qed

lemma expected_calls_range:
  assumes "v \<in> set (expected_calls tot)"
  shows "0 \<le> v" and "v \<le> 100" and "tot \<le> 2 ^ 1074 \<Longrightarrow> 0 < v"
proof -
  obtain k where k: "v = progress_of k tot" "1 \<le> k" "k \<le> tot"
    using assms by (auto simp: expected_calls_def)
  then have k0: "0 < k" by simp
  show "0 \<le> v" "v \<le> 100"
    using progress_of_range [OF k0 k(3)] k(1) by simp_all
  show "0 < v" if "tot \<le> 2 ^ 1074"
    using progress_of_pos [OF k0 k(3) that] k(1) by simp
qed

lemma expected_calls_underflow:
  assumes "2 ^ 1082 \<le> tot"
  shows "0 \<in> set (expected_calls tot)"
proof -
  have "(50::int) < 2 ^ 1082" by simp
  then have "50 \<le> tot" using assms by linarith
  then have "50 \<in> set (filter (\<lambda>k. k mod 50 = 0 \<or> k = tot) [1..tot])" by simp
  then have "progress_of 50 tot \<in> set (expected_calls tot)"
    unfolding expected_calls_def by (simp only: set_map image_eqI)
  then show ?thesis using progress_of_underflow [of 50 tot] assms by simp
qed

lemma batch_complete_run:
  assumes "1 \<le> start" and "start < end'" and "blocks \<noteq> []" and "evaluable end' blocks"
  shows "\<exists>results. generate_fizzbuzz_batch start end' blocks True
           = Some (Inr results, expected_calls (end' - start + 1))"
proof -
  define F where "F = batch_fibonacci_set end' blocks"
  define n where "n = end' - start + 1"
  have len: "0 + int (length [start..end']) = n" using assms by (simp add: n_def)
  have le: "0 + int (length [start..end']) \<le> n" by (simp only: len)
  have "\<forall>m \<in> set [start..end']. \<exists>r. process_number m blocks (Some F) = Inr r"
    using evaluable_mono [OF assms(4)] process_number_returns by simp
  then obtain rs cs where run: "batch_loop True n blocks F 0 [start..end'] [] [] = (Inr rs, cs)"
    using batch_loop_returns [of "[start..end']" blocks F 0 n True] le by blast
  have "cs = [] @ map (\<lambda>k. progress_of k n)
      (filter (\<lambda>k. k mod 50 = 0 \<or> k = n) [0 + 1..0 + int (length [start..end'])])"
    using run _ le by (rule batch_loop_calls) simp
  then have "cs = expected_calls n"
    by (simp only: len expected_calls_def append_Nil) simp
  then have "generate_fizzbuzz_batch start end' blocks True = Some (Inr rs, expected_calls n)"
    using generate_fizzbuzz_batch_valid [OF assms(1,2,3), of True] run
    by (simp add: F_def n_def)
  then show ?thesis unfolding n_def by (intro exI)
qed

lemma batch_loop_first_fifty:
  assumes "evaluable 50 blocks" and "2 ^ 1082 \<le> tot"
  shows "\<exists>results. batch_loop True tot blocks F 0 [1..50] [] [] = (Inr results, [0])"
proof -
  have "(50::int) < 2 ^ 1082" by simp
  then have t: "50 < tot" using assms(2) by linarith
  have le: "0 + int (length [1..50::int]) \<le> tot" using t by simp
  have "\<forall>m \<in> set [1..50]. \<exists>r. process_number m blocks (Some F) = Inr r"
    using evaluable_mono [OF assms(1)] process_number_returns by simp
  then obtain rs cs where run: "batch_loop True tot blocks F 0 [1..50] [] [] = (Inr rs, cs)"
    using batch_loop_returns [of "[1..50]" blocks F 0 tot True] le by blast
  have "cs = [] @ map (\<lambda>k. progress_of k tot)
      (filter (\<lambda>k. k mod 50 = 0 \<or> k = tot) [0 + 1..0 + int (length [1..50::int])])"
    using run _ le by (rule batch_loop_calls) simp
  moreover have "[0 + 1..0 + int (length [1..50::int])] = [1..49] @ [50::int]"
    by (subst upto_rec2) simp_all
  moreover have "filter (\<lambda>k. k mod 50 = 0 \<or> k = tot) [1..49] = []"
    using t by (auto simp: filter_empty_conv)
  ultimately have "cs = [progress_of 50 tot]" by simp
  then have "cs = [0]" using progress_of_underflow [of 50 tot] assms(2) by simp
  then show ?thesis using run by simp
qed

section \<open>The claims\<close>




text \<open>
  Claim C8. For every \<open>max_value\<close> the Fibonacci-set generator returns (its loop
  terminates) the set of the members of the sequence 1, 1, 2, 3, 5, 8, \<dots> that are at
  most \<open>max_value\<close>; the set is empty whenever \<open>max_value < 1\<close>; and the sets for 0, 1
  and 10 are \<open>{}\<close>, \<open>{1}\<close> and \<open>{1, 2, 3, 5, 8}\<close>.
\<close>

theorem generate_fibonacci_set_correct:
  "generate_fibonacci_set max_value = Some (fibonacci_numbers_upto max_value)
   \<and> (max_value < 1 \<longrightarrow> generate_fibonacci_set max_value = Some {})
   \<and> generate_fibonacci_set 0 = Some {}
   \<and> generate_fibonacci_set 1 = Some {1}
   \<and> generate_fibonacci_set 10 = Some {1, 2, 3, 5, 8}"
proof (intro conjI impI)
  show "generate_fibonacci_set max_value = Some (fibonacci_numbers_upto max_value)"
    by (rule generate_fibonacci_set_eq)
  show "generate_fibonacci_set max_value = Some {}" if "max_value < 1"
    using that by (simp add: generate_fibonacci_set_def)
  show "generate_fibonacci_set 0 = Some {}"
    by (rule generate_fibonacci_set_0)
  show "generate_fibonacci_set 1 = Some {1}"
    by (rule generate_fibonacci_set_1)
  show "generate_fibonacci_set 10 = Some {1, 2, 3, 5, 8}"
    by (rule generate_fibonacci_set_10)
qed

theorem generate_fibonacci_set_witness:
  "(0::int) < 1 \<and> generate_fibonacci_set 0 = Some {} \<and> fibonacci_numbers_upto 0 = {}
   \<and> fibonacci_numbers_upto 10 = {1, 2, 3, 5, 8}"
proof -
  have "generate_fibonacci_set 0 = Some (fibonacci_numbers_upto 0)"
    and "(0::int) < 1 \<longrightarrow> generate_fibonacci_set 0 = Some {}"
    using generate_fibonacci_set_correct [of 0] by blast+
  moreover have "generate_fibonacci_set 10 = Some (fibonacci_numbers_upto 10)"
    and "generate_fibonacci_set 10 = Some {1, 2, 3, 5, 8}"
    using generate_fibonacci_set_correct [of 10] by blast+
  ultimately show ?thesis by simp
qed





text \<open>
  Claim C3. The tag of every evaluation result is the classification of its matched
  rules: \<open>number\<close> for none; for exactly one, \<open>Fizz\<close> or \<open>Buzz\<close> for a divisor-rule with
  exactly that word, \<open>divisor_custom\<close> for any other divisor-rule, \<open>Prime\<close>, \<open>Fib\<close> and
  \<open>range_custom\<close> for the other kinds; for two or more, \<open>FizzBuzz\<close> when a divisor-rule
  with word \<open>Fizz\<close> and a divisor-rule with word \<open>Buzz\<close> are among them, \<open>combination\<close>
  otherwise. The tag depends on the word only: changing names and ids leaves it as it is.
\<close>

theorem result_type_classification:
  "(\<forall>r. process_number n blocks fs = Inr r \<longrightarrow> result_type r = classify (matching_blocks r))
   \<and> ((parts = []) = (matched = []) \<longrightarrow> get_result_type parts matched = classify matched)
   \<and> classify [] = ''number''
   \<and> (block_type b = DIVISOR \<and> properties b ''word'' = Some (PyStr ''Fizz'')
        \<longrightarrow> classify [b] = ''Fizz'')
   \<and> (block_type b = DIVISOR \<and> properties b ''word'' = Some (PyStr ''Buzz'')
        \<longrightarrow> classify [b] = ''Buzz'')
   \<and> (block_type b = DIVISOR \<and> properties b ''word'' \<noteq> Some (PyStr ''Fizz'')
        \<and> properties b ''word'' \<noteq> Some (PyStr ''Buzz'') \<longrightarrow> classify [b] = ''divisor_custom'')
   \<and> (block_type b = PRIME \<longrightarrow> classify [b] = ''Prime'')
   \<and> (block_type b = FIBONACCI \<longrightarrow> classify [b] = ''Fib'')
   \<and> (block_type b = RANGE \<longrightarrow> classify [b] = ''range_custom'')
   \<and> (2 \<le> length matched \<longrightarrow>
        classify matched =
          (if (\<exists>x \<in> set matched. divisor_with_word ''Fizz'' x)
              \<and> (\<exists>x \<in> set matched. divisor_with_word ''Buzz'' x)
           then ''FizzBuzz'' else ''combination''))
   \<and> classify (map (\<lambda>b. b\<lparr>name := new_name b, id' := new_id b\<rparr>) matched) = classify matched"
proof (intro conjI allI impI)
  fix r assume r: "process_number n blocks fs = Inr r"
  show "result_type r = classify (matching_blocks r)"
    using process_number_Inr(2,4) [OF r] by simp
next
  show "get_result_type parts matched = classify matched" if "(parts = []) = (matched = [])"
    using that by (rule get_result_type_classify_general)
  show "classify [] = ''number''"
    by (simp add: classify_def)
  show "classify [b] = ''Fizz''"
    if "block_type b = DIVISOR \<and> properties b ''word'' = Some (PyStr ''Fizz'')"
    using that by (simp add: classify_def)
  show "classify [b] = ''Buzz''"
    if "block_type b = DIVISOR \<and> properties b ''word'' = Some (PyStr ''Buzz'')"
    using that by (simp add: classify_def)
  show "classify [b] = ''divisor_custom''"
    if "block_type b = DIVISOR \<and> properties b ''word'' \<noteq> Some (PyStr ''Fizz'')
        \<and> properties b ''word'' \<noteq> Some (PyStr ''Buzz'')"
    using that by (simp add: classify_def)
  show "classify [b] = ''Prime''" if "block_type b = PRIME"
    using that by (simp add: classify_def)
  show "classify [b] = ''Fib''" if "block_type b = FIBONACCI"
    using that by (simp add: classify_def)
  show "classify [b] = ''range_custom''" if "block_type b = RANGE"
    using that by (simp add: classify_def)
  show "classify matched =
          (if (\<exists>x \<in> set matched. divisor_with_word ''Fizz'' x)
              \<and> (\<exists>x \<in> set matched. divisor_with_word ''Buzz'' x)
           then ''FizzBuzz'' else ''combination'')" if "2 \<le> length matched"
  proof -
    obtain x y rest where "matched = x # y # rest"
    proof (cases matched)
      case Nil
      then show ?thesis using \<open>2 \<le> length matched\<close> by simp
    next
      case (Cons x ys)
      then show ?thesis using \<open>2 \<le> length matched\<close> that by (cases ys) simp_all
    qed
    then show ?thesis by (simp add: classify_def)
  qed
  show "classify (map (\<lambda>b. b\<lparr>name := new_name b, id' := new_id b\<rparr>) matched) = classify matched"
    by (rule classify_rename)
qed

theorem result_type_classification_witness:
  "(\<exists>r. process_number 9 [divisor_rule ''my rule'' 3 ''Fizz'' 0, divisor_rule ''other'' 5 ''Buzz'' 1]
            None = Inr r \<and> result_type r = ''Fizz'')
   \<and> (\<exists>r. process_number 15 [divisor_rule ''my rule'' 3 ''Fizz'' 0, divisor_rule ''other'' 5 ''Buzz'' 1]
            None = Inr r \<and> result_type r = ''FizzBuzz'')
   \<and> (\<exists>r. process_number 7 [divisor_rule ''my rule'' 3 ''Fizz'' 0, divisor_rule ''other'' 5 ''Buzz'' 1]
            None = Inr r \<and> result_type r = ''number'')
   \<and> classify [prime_rule ''P'' 0, fibonacci_rule ''F'' 1] = ''combination''"
proof -
  let ?blocks = "[divisor_rule ''my rule'' 3 ''Fizz'' 0, divisor_rule ''other'' 5 ''Buzz'' 1]"
  have e: "evaluable k ?blocks" for k
    by (simp add: evaluable_def well_formed_rule_def divisor_rule_def)
  have c: "classify (filter (rule_matches 9 {}) (sort_key order ?blocks)) = ''Fizz''"
    "classify (filter (rule_matches 15 {}) (sort_key order ?blocks)) = ''FizzBuzz''"
    "classify (filter (rule_matches 7 {}) (sort_key order ?blocks)) = ''number''"
    by (simp_all add: rule_matches_def divisor_rule_def classify_def divisor_with_word_def)
  have t: "result_type r = classify (filter (rule_matches k {}) (sort_key order ?blocks))"
    if "process_number k ?blocks None = Inr r" for k r
    using result_type_classification [of k ?blocks None] process_number_Inr(2) [OF that] that
    by simp
  obtain r9 where r9: "process_number 9 ?blocks None = Inr r9"
    using process_number_returns [OF e] by blast
  obtain r15 where r15: "process_number 15 ?blocks None = Inr r15"
    using process_number_returns [OF e] by blast
  obtain r7 where r7: "process_number 7 ?blocks None = Inr r7"
    using process_number_returns [OF e] by blast
  have "2 \<le> length [prime_rule ''P'' 0, fibonacci_rule ''F'' 1]" by simp
  with result_type_classification [where matched = "[prime_rule ''P'' 0, fibonacci_rule ''F'' 1]"]
  have "classify [prime_rule ''P'' 0, fibonacci_rule ''F'' 1] = ''combination''"
    by (simp add: divisor_with_word_def prime_rule_def fibonacci_rule_def)
  then show ?thesis
    using r9 r15 r7 t [OF r9] t [OF r15] t [OF r7] c by auto
qed


text \<open>
  Claim C10. A call without a Fibonacci set (\<^verbatim>\<open>None\<close>) is the call with the empty set,
  and no fibonacci-rule is among the rules it matches.
\<close>

theorem process_number_default_fibonacci_set:
  "process_number n blocks None = process_number n blocks (Some {})
   \<and> (\<forall>r. process_number n blocks None = Inr r \<longrightarrow>
          (\<forall>b \<in> set (matching_blocks r). block_type b \<noteq> FIBONACCI))"
proof (intro conjI allI impI ballI)
  show "process_number n blocks None = process_number n blocks (Some {})"
    by (simp add: process_number_def)
next
  fix r b assume r: "process_number n blocks None = Inr r" and b: "b \<in> set (matching_blocks r)"
  have "rule_matches n {} b"
    using b process_number_Inr(2) [OF r] by simp
  then show "block_type b \<noteq> FIBONACCI"
    by (auto simp: rule_matches_def)
qed

theorem process_number_default_fibonacci_set_witness:
  "(\<exists>r. process_number 13 [fibonacci_rule ''Fib'' 0] None = Inr r
         \<and> matching_blocks r = [] \<and> text r = ''13'')
   \<and> (\<exists>r. process_number 13 [fibonacci_rule ''Fib'' 0] (Some {}) = Inr r
         \<and> matching_blocks r = [] \<and> text r = ''13'')
   \<and> (\<exists>r. process_number 13 [fibonacci_rule ''Fib'' 0] (Some {1, 2, 3, 5, 8, 13}) = Inr r
         \<and> matching_blocks r = [fibonacci_rule ''Fib'' 0] \<and> text r = ''Fib''
         \<and> result_type r = ''Fib'')"
proof -
  let ?blocks = "[fibonacci_rule ''Fib'' 0]"
  have e: "evaluable 13 ?blocks"
    by (simp add: evaluable_def well_formed_rule_def fibonacci_rule_def)
  obtain r where r: "process_number 13 ?blocks None = Inr r"
    using process_number_returns [OF e] by blast
  have m: "matching_blocks r = []" "text r = ''13''"
    using process_number_Inr(2,3) [OF r]
    by (simp_all add: rule_matches_def fibonacci_rule_def py_str_def str_nat.simps)
  have d: "process_number 13 ?blocks None = process_number 13 ?blocks (Some {})"
    using process_number_default_fibonacci_set [of 13 ?blocks] by blast
  obtain q where q: "process_number 13 ?blocks (Some {1, 2, 3, 5, 8, 13}) = Inr q"
    using process_number_returns [OF e] by blast
  have "matching_blocks q = ?blocks" "text q = ''Fib''" "result_type q = ''Fib''"
    using process_number_Inr(2,3,4) [OF q]
    by (simp_all add: rule_matches_def fibonacci_rule_def word_of_def classify_def)
  then show ?thesis using r m d q by auto
qed








end
